theory Spec2Isabelle
  imports Main "HOL-Library.AList" "HOL-Library.Sublist" "HOL-Library.List_Lexorder" "HOL-Library.Char_ord"
begin

section \<open>Paths: Go's path/filepath on a Unix system\<close>

text \<open>
  The store builds every path with \<^verbatim>\<open>filepath.Join\<close> and \<^verbatim>\<open>filepath.Clean\<close> and by
  appending the suffixes \<^verbatim>\<open>.json\<close> and \<^verbatim>\<open>.tmp\<close> to the resulting strings.  Paths are
  therefore modelled as strings, and the two library functions follow their documented
  behaviour on Unix (separator \<^verbatim>\<open>/\<close>, no volume names).
\<close>

text \<open>\<^verbatim>\<open>strings.Split(p, "/")\<close>: the path elements between separators.\<close>

fun splitp :: "string \<Rightarrow> string list" where
  "splitp [] = [[]]"
| "splitp (c # cs) =
     (if c = CHR ''/'' then [] # splitp cs
      else (case splitp cs of [] \<Rightarrow> [[c]] | x # xs \<Rightarrow> (c # x) # xs))"

text \<open>\<^verbatim>\<open>strings.Join(elems, "/")\<close>.\<close>

fun joinp :: "string list \<Rightarrow> string" where
  "joinp [] = []"
| "joinp [x] = x"
| "joinp (x # y # ys) = x @ ''/'' @ joinp (y # ys)"

text \<open>
  One step of \<^verbatim>\<open>Clean\<close>'s scan, on the elements written so far: an empty element and
  \<^verbatim>\<open>.\<close> are dropped; \<^verbatim>\<open>..\<close> removes the element before it when there is one to remove,
  is dropped at the top of a rooted path, and is kept at the start of a relative one;
  any other element is appended.
\<close>

definition cstep :: "bool \<Rightarrow> string list \<Rightarrow> string \<Rightarrow> string list" where
  "cstep rooted out e =
     (if e = [] \<or> e = ''.'' then out
      else if e = ''..'' then
        (if out \<noteq> [] \<and> last out \<noteq> ''..'' then butlast out
         else if rooted then out
         else out @ [e])
      else out @ [e])"

definition rooted :: "string \<Rightarrow> bool" where
  "rooted p = (case p of [] \<Rightarrow> False | c # _ \<Rightarrow> c = CHR ''/'')"

definition render :: "bool \<Rightarrow> string list \<Rightarrow> string" where
  "render r out =
     (let s = (if r then ''/'' else []) @ joinp out in if s = [] then ''.'' else s)"

definition Clean :: "string \<Rightarrow> string" where
  "Clean p = (if p = [] then ''.''
              else render (rooted p) (foldl (cstep (rooted p)) [] (splitp p)))"

text \<open>
  \<^verbatim>\<open>filepath.Join\<close>: leading empty elements are skipped, the rest is joined with the
  separator and cleaned; with no non-empty element the result is the empty string.
\<close>

fun Join :: "string list \<Rightarrow> string" where
  "Join [] = []"
| "Join (e # es) = (if e = [] then Join es else Clean (joinp (e # es)))"


section \<open>The filesystem\<close>

text \<open>
  The operating system is the store's environment.  It is modelled as a tree of
  directories and regular files, without symbolic links, permissions or special files.
  The process's working directory is the root of the tree, so that a relative path, the
  same path with a leading separator, and a path that climbs above the root with \<^verbatim>\<open>..\<close>
  all resolve from the root.  A path is resolved element by element as \<^verbatim>\<open>Clean\<close> reads
  a rooted path, which is what the kernel does for the paths the store builds: a
  cleaned path, or a cleaned path with a suffix appended to its last element.  Every
  system call is atomic: it either succeeds or leaves the tree as it was.
\<close>

type_synonym bytes = string

datatype node = File bytes | Dir "(string \<times> node) list"

datatype errno = ENOENT | ENOTDIR | EISDIR | EEXIST | EINVAL | EBUSY

text \<open>The kernel's path resolution: the names from the root to the file a path denotes.\<close>

definition resolve :: "string \<Rightarrow> string list" where
  "resolve p = foldl (cstep True) [] (splitp p)"

fun lookup :: "node \<Rightarrow> string list \<Rightarrow> errno + node" where
  "lookup n [] = Inr n"
| "lookup (File b) (k # ks) = Inl ENOTDIR"
| "lookup (Dir es) (k # ks) =
     (case map_of es k of None \<Rightarrow> Inl ENOENT | Some n \<Rightarrow> lookup n ks)"

text \<open>
  \<open>alter f t ks\<close> changes the entry named by \<open>ks\<close> in its parent directory, which must
  exist: \<open>f\<close> sees the present entry and answers with an error, with \<open>None\<close> to remove
  the entry, or with the node to store.
\<close>

fun alter :: "(node option \<Rightarrow> errno + node option) \<Rightarrow> node \<Rightarrow> string list \<Rightarrow> errno + node" where
  "alter f n [] = Inl EBUSY"
| "alter f (File b) (k # ks) = Inl ENOTDIR"
| "alter f (Dir es) [k] =
     (case f (map_of es k) of
        Inl e \<Rightarrow> Inl e
      | Inr None \<Rightarrow> Inr (Dir (AList.delete k es))
      | Inr (Some n) \<Rightarrow> Inr (Dir (AList.update k n es)))"
| "alter f (Dir es) (k # k' # ks) =
     (case map_of es k of
        None \<Rightarrow> Inl ENOENT
      | Some n \<Rightarrow>
          (case alter f n (k' # ks) of
             Inl e \<Rightarrow> Inl e
           | Inr n' \<Rightarrow> Inr (Dir (AList.update k n' es))))"

text \<open>\<^verbatim>\<open>os.MkdirAll\<close>: creates the missing directories along the path; an existing
  directory is left as it is, and a regular file on the way is an error.\<close>

fun mkdir_all :: "node \<Rightarrow> string list \<Rightarrow> errno + node" where
  "mkdir_all (File b) ks = Inl ENOTDIR"
| "mkdir_all (Dir es) [] = Inr (Dir es)"
| "mkdir_all (Dir es) (k # ks) =
     (case mkdir_all (case map_of es k of None \<Rightarrow> Dir [] | Some n \<Rightarrow> n) ks of
        Inl e \<Rightarrow> Inl e
      | Inr n' \<Rightarrow> Inr (Dir (AList.update k n' es)))"

definition write_file :: "bytes \<Rightarrow> node option \<Rightarrow> errno + node option" where
  "write_file b old = (case old of Some (Dir es) \<Rightarrow> Inl EISDIR | _ \<Rightarrow> Inr (Some (File b)))"

definition unlink :: "node option \<Rightarrow> errno + node option" where
  "unlink old = Inr None"

definition link :: "node \<Rightarrow> node option \<Rightarrow> errno + node option" where
  "link n old = Inr (Some n)"

text \<open>
  \<^verbatim>\<open>os.Rename\<close>: Go refuses an existing directory as the new name; otherwise the node
  moves from the old name to the new one, replacing a regular file there.
\<close>

definition rename_at :: "node \<Rightarrow> string list \<Rightarrow> string list \<Rightarrow> errno + node" where
  "rename_at t old new =
     (case lookup t old of
        Inl e \<Rightarrow> Inl e
      | Inr n \<Rightarrow>
          (case lookup t new of
             Inr (Dir es) \<Rightarrow> Inl EEXIST
           | Inr (File b) \<Rightarrow>
               (case n of
                  Dir es \<Rightarrow> Inl ENOTDIR
                | File b' \<Rightarrow>
                    if old = new then Inr t
                    else (case alter (link n) t new of
                            Inl e \<Rightarrow> Inl e
                          | Inr t' \<Rightarrow> alter unlink t' old))
           | Inl e \<Rightarrow>
               if old = [] then Inl EBUSY
               else if prefix old new then Inl EINVAL
               else (case alter (link n) t new of
                       Inl e \<Rightarrow> Inl e
                     | Inr t' \<Rightarrow> alter unlink t' old)))"

definition rename_tree :: "node \<Rightarrow> string \<Rightarrow> string \<Rightarrow> errno + node" where
  "rename_tree t old new =
     (if old = [] \<or> new = [] then Inl ENOENT else rename_at t (resolve old) (resolve new))"

text \<open>
  \<^verbatim>\<open>os.RemoveAll\<close> returns no error for the empty path and for a path that does not
  exist, refuses a path whose last element is \<^verbatim>\<open>.\<close>, and cannot remove the root of the
  tree.
\<close>

definition endsWithDot :: "string \<Rightarrow> bool" where
  "endsWithDot p =
     (p = ''.'' \<or> (2 \<le> length p \<and> last p = CHR ''.'' \<and> last (butlast p) = CHR ''/''))"

definition remove_all :: "node \<Rightarrow> string \<Rightarrow> errno + node" where
  "remove_all t p =
     (if p = [] then Inr t
      else if endsWithDot p then Inl EINVAL
      else (case alter unlink t (resolve p) of
              Inl ENOENT \<Rightarrow> Inr t
            | Inl e \<Rightarrow> Inl e
            | Inr t' \<Rightarrow> Inr t'))"

section \<open>The state of the program\<close>

datatype event =
    Stat string
  | MkdirAll string
  | WriteFile string
  | Rename string string
  | ReadFile string
  | ReadDir string
  | RemoveAll string
  | Lock nat
  | Unlock nat

text \<open>
  \<^verbatim>\<open>Driver\<close> as the source declares it.  A \<^verbatim>\<open>*sync.Mutex\<close> is the address of the mutex;
  the logger is used by \<^verbatim>\<open>New\<close> only and the mutex guarding the registry matters only
  to concurrent callers, so both fields are left out.
\<close>

record Driver =
  mutexes :: "string \<rightharpoonup> nat"
  dir :: string

text \<open>
  The driver, the filesystem, the next free address of the heap, and the log of the
  system calls and lock operations performed so far, oldest first.
\<close>

record sys =
  driver :: Driver
  tree :: node
  heap :: nat
  trace :: "event list"

definition log :: "event \<Rightarrow> sys \<Rightarrow> sys" where
  "log ev w = w\<lparr>trace := trace w @ [ev]\<rparr>"

datatype FileInfo = ModeDir | ModeRegular

definition IsDir :: "FileInfo \<Rightarrow> bool" where
  "IsDir fi = (fi = ModeDir)"

definition IsRegular :: "FileInfo \<Rightarrow> bool" where
  "IsRegular fi = (fi = ModeRegular)"

definition IsNotExist :: "errno \<Rightarrow> bool" where
  "IsNotExist e = (e = ENOENT)"

text \<open>The system calls as functions of the tree.\<close>

definition stat_tree :: "node \<Rightarrow> string \<Rightarrow> errno + FileInfo" where
  "stat_tree t p =
     (if p = [] then Inl ENOENT
      else (case lookup t (resolve p) of
              Inl e \<Rightarrow> Inl e
            | Inr (Dir es) \<Rightarrow> Inr ModeDir
            | Inr (File b) \<Rightarrow> Inr ModeRegular))"

definition mkdirall_tree :: "node \<Rightarrow> string \<Rightarrow> errno + node" where
  "mkdirall_tree t p = (if p = [] then Inl ENOENT else mkdir_all t (resolve p))"

definition writefile_tree :: "node \<Rightarrow> string \<Rightarrow> bytes \<Rightarrow> errno + node" where
  "writefile_tree t p b =
     (if p = [] then Inl ENOENT
      else (case alter (write_file b) t (resolve p) of
              Inl EBUSY \<Rightarrow> Inl EISDIR
            | Inl e \<Rightarrow> Inl e
            | Inr t' \<Rightarrow> Inr t'))"

definition readfile_tree :: "node \<Rightarrow> string \<Rightarrow> errno + bytes" where
  "readfile_tree t p =
     (if p = [] then Inl ENOENT
      else (case lookup t (resolve p) of
              Inl e \<Rightarrow> Inl e
            | Inr (Dir es) \<Rightarrow> Inl EISDIR
            | Inr (File b) \<Rightarrow> Inr b))"

text \<open>\<^verbatim>\<open>ioutil.ReadDir\<close> returns the entries sorted by name; the store uses their names only.\<close>

definition readdir_tree :: "node \<Rightarrow> string \<Rightarrow> errno + string list" where
  "readdir_tree t p =
     (if p = [] then Inl ENOENT
      else (case lookup t (resolve p) of
              Inl e \<Rightarrow> Inl e
            | Inr (Dir es) \<Rightarrow> Inr (sort (map fst es))
            | Inr (File b) \<Rightarrow> Inl ENOTDIR))"

text \<open>The system calls on the state: each one is logged, and a failed call changes nothing else.\<close>

definition os_Stat :: "string \<Rightarrow> sys \<Rightarrow> (errno + FileInfo) \<times> sys" where
  "os_Stat p w = (stat_tree (tree w) p, log (Stat p) w)"

definition os_MkdirAll :: "string \<Rightarrow> sys \<Rightarrow> errno option \<times> sys" where
  "os_MkdirAll p w =
     (case mkdirall_tree (tree w) p of
        Inl e \<Rightarrow> (Some e, log (MkdirAll p) w)
      | Inr t \<Rightarrow> (None, log (MkdirAll p) (w\<lparr>tree := t\<rparr>)))"

definition ioutil_WriteFile :: "string \<Rightarrow> bytes \<Rightarrow> sys \<Rightarrow> errno option \<times> sys" where
  "ioutil_WriteFile p b w =
     (case writefile_tree (tree w) p b of
        Inl e \<Rightarrow> (Some e, log (WriteFile p) w)
      | Inr t \<Rightarrow> (None, log (WriteFile p) (w\<lparr>tree := t\<rparr>)))"

definition os_Rename :: "string \<Rightarrow> string \<Rightarrow> sys \<Rightarrow> errno option \<times> sys" where
  "os_Rename old new w =
     (case rename_tree (tree w) old new of
        Inl e \<Rightarrow> (Some e, log (Rename old new) w)
      | Inr t \<Rightarrow> (None, log (Rename old new) (w\<lparr>tree := t\<rparr>)))"

definition ioutil_ReadFile :: "string \<Rightarrow> sys \<Rightarrow> (errno + bytes) \<times> sys" where
  "ioutil_ReadFile p w = (readfile_tree (tree w) p, log (ReadFile p) w)"

definition ioutil_ReadDir :: "string \<Rightarrow> sys \<Rightarrow> (errno + string list) \<times> sys" where
  "ioutil_ReadDir p w = (readdir_tree (tree w) p, log (ReadDir p) w)"

definition os_RemoveAll :: "string \<Rightarrow> sys \<Rightarrow> errno option \<times> sys" where
  "os_RemoveAll p w =
     (case remove_all (tree w) p of
        Inl e \<Rightarrow> (Some e, log (RemoveAll p) w)
      | Inr t \<Rightarrow> (None, log (RemoveAll p) (w\<lparr>tree := t\<rparr>)))"

section \<open>The store\<close>

datatype error = Errorf string | PathError errno | CodecError

text \<open>
  \<^verbatim>\<open>New\<close>: the root is cleaned, the registry starts empty, and the root directory is
  created unless \<^verbatim>\<open>os.Stat\<close> finds it.  The driver is returned in both cases.
\<close>

definition New :: "string \<Rightarrow> sys \<Rightarrow> error option \<times> sys" where
  "New d w =
     (let w0 = w\<lparr>driver := \<lparr>mutexes = Map.empty, dir = Clean d\<rparr>\<rparr> in
      case os_Stat (Clean d) w0 of
        (Inr fi, w1) \<Rightarrow> (None, w1)
      | (Inl e, w1) \<Rightarrow>
          (case os_MkdirAll (Clean d) w1 of
             (None, w2) \<Rightarrow> (None, w2)
           | (Some e', w2) \<Rightarrow> (Some (PathError e'), w2)))"

text \<open>\<^verbatim>\<open>stat\<close>: the bare path, and the path with the suffix when the bare one does not exist.\<close>

definition stat :: "string \<Rightarrow> sys \<Rightarrow> (errno + FileInfo) \<times> sys" where
  "stat path w =
     (case os_Stat path w of
        (Inl e, w1) \<Rightarrow> if IsNotExist e then os_Stat (path @ ''.json'') w1 else (Inl e, w1)
      | (Inr fi, w1) \<Rightarrow> (Inr fi, w1))"

text \<open>\<^verbatim>\<open>getOrCreateMutex\<close>: a new mutex is allocated at the next free address.\<close>

definition getOrCreateMutex :: "string \<Rightarrow> sys \<Rightarrow> nat \<times> sys" where
  "getOrCreateMutex collection w =
     (case mutexes (driver w) collection of
        Some m \<Rightarrow> (m, w)
      | None \<Rightarrow>
          (heap w,
           w\<lparr>driver := (driver w)\<lparr>mutexes := (mutexes (driver w))(collection \<mapsto> heap w)\<rparr>,
             heap := Suc (heap w)\<rparr>))"

text \<open>
  The serializer is a parameter of the model: \<open>marshal\<close> stands for
  \<^verbatim>\<open>json.MarshalIndent(value, "", "\t")\<close> and \<open>unmarshal\<close> for \<^verbatim>\<open>json.Unmarshal\<close> into
  the caller's value.  The body of \<^verbatim>\<open>Write\<close> between \<^verbatim>\<open>Lock\<close> and the deferred
  \<^verbatim>\<open>Unlock\<close> is \<open>Write_locked\<close>.
\<close>

definition Write_locked ::
  "('v \<Rightarrow> error + bytes) \<Rightarrow> string \<Rightarrow> string \<Rightarrow> 'v \<Rightarrow> sys \<Rightarrow> error option \<times> sys" where
  "Write_locked marshal collection resource v w =
     (let dirp = Join [dir (driver w), collection];
          finalPath = Join [dirp, resource @ ''.json''];
          tempPath = finalPath @ ''.tmp''
      in case os_MkdirAll dirp w of
           (Some e, w1) \<Rightarrow> (Some (PathError e), w1)
         | (None, w1) \<Rightarrow>
             (case marshal v of
                Inl e \<Rightarrow> (Some e, w1)
              | Inr b \<Rightarrow>
                  (case ioutil_WriteFile tempPath (b @ [CHR 0x0A]) w1 of
                     (Some e, w2) \<Rightarrow> (Some (PathError e), w2)
                   | (None, w2) \<Rightarrow>
                       (case os_Rename tempPath finalPath w2 of
                          (Some e, w3) \<Rightarrow> (Some (PathError e), w3)
                        | (None, w3) \<Rightarrow> (None, w3)))))"

definition Write ::
  "('v \<Rightarrow> error + bytes) \<Rightarrow> string \<Rightarrow> string \<Rightarrow> 'v \<Rightarrow> sys \<Rightarrow> error option \<times> sys" where
  "Write marshal collection resource v w =
     (if collection = [] then
        (Some (Errorf ''Missing collection - no place to save records''), w)
      else if resource = [] then
        (Some (Errorf ''Missing resource - unable to save records (no name)''), w)
      else
        (case getOrCreateMutex collection w of
           (mutex, w0) \<Rightarrow>
             (case Write_locked marshal collection resource v (log (Lock mutex) w0) of
                (r, w1) \<Rightarrow> (r, log (Unlock mutex) w1))))"

definition Read ::
  "(bytes \<Rightarrow> error + 'v) \<Rightarrow> string \<Rightarrow> string \<Rightarrow> sys \<Rightarrow> (error + 'v) \<times> sys" where
  "Read unmarshal collection resource w =
     (if collection = [] then (Inl (Errorf ''Missing collection - unable to read''), w)
      else if resource = [] then
        (Inl (Errorf ''Missing resource - unable to save record (no name)''), w)
      else
        (let recordp = Join [dir (driver w), collection, resource] in
         case stat recordp w of
           (Inl e, w1) \<Rightarrow> (Inl (PathError e), w1)
         | (Inr fi, w1) \<Rightarrow>
             (case ioutil_ReadFile (recordp @ ''.json'') w1 of
                (Inl e, w2) \<Rightarrow> (Inl (PathError e), w2)
              | (Inr b, w2) \<Rightarrow> (unmarshal b, w2))))"

text \<open>The loop of \<^verbatim>\<open>ReadAll\<close> over the directory entries, with the records read so far.\<close>

fun read_entries :: "string \<Rightarrow> string list \<Rightarrow> string list \<Rightarrow> sys \<Rightarrow> (error + string list) \<times> sys" where
  "read_entries dirp [] records w = (Inr records, w)"
| "read_entries dirp (x # xs) records w =
     (case ioutil_ReadFile (Join [dirp, x]) w of
        (Inl e, w1) \<Rightarrow> (Inl (PathError e), w1)
      | (Inr data, w1) \<Rightarrow> read_entries dirp xs (records @ [data]) w1)"

definition ReadAll :: "string \<Rightarrow> sys \<Rightarrow> (error + string list) \<times> sys" where
  "ReadAll collection w =
     (if collection = [] then (Inl (Errorf ''Missing collection - unable to read''), w)
      else
        (let dirp = Join [dir (driver w), collection] in
         case stat dirp w of
           (Inl e, w1) \<Rightarrow> (Inl (PathError e), w1)
         | (Inr fi, w1) \<Rightarrow>
             (case ioutil_ReadDir dirp w1 of
                (Inl e, w2) \<Rightarrow> (Inl (PathError e), w2)
              | (Inr names, w2) \<Rightarrow> read_entries dirp names [] w2)))"

text \<open>
  The body of \<^verbatim>\<open>Delete\<close> between \<^verbatim>\<open>Lock\<close> and the deferred \<^verbatim>\<open>Unlock\<close>.  The switch has
  a case for a directory and a case for a regular file, and the function returns no
  error for anything else; the tree has no other kind of file.
\<close>

definition Delete_locked :: "string \<Rightarrow> sys \<Rightarrow> error option \<times> sys" where
  "Delete_locked path w =
     (let dirp = Join [dir (driver w), path] in
      case stat dirp w of
        (Inl e, w1) \<Rightarrow>
          (Some (Errorf (''unable to find file or directory named '' @ path @ [CHR 0x0A])), w1)
      | (Inr fi, w1) \<Rightarrow>
          if IsDir fi then
            (case os_RemoveAll dirp w1 of
               (Some e, w2) \<Rightarrow> (Some (PathError e), w2)
             | (None, w2) \<Rightarrow> (None, w2))
          else if IsRegular fi then
            (case os_RemoveAll (dirp @ ''.json'') w1 of
               (Some e, w2) \<Rightarrow> (Some (PathError e), w2)
             | (None, w2) \<Rightarrow> (None, w2))
          else (None, w1))"

definition Delete :: "string \<Rightarrow> string \<Rightarrow> sys \<Rightarrow> error option \<times> sys" where
  "Delete collection resource w =
     (let path = Join [collection, resource] in
      case getOrCreateMutex collection w of
        (mutex, w0) \<Rightarrow>
          (case Delete_locked path (log (Lock mutex) w0) of
             (r, w1) \<Rightarrow> (r, log (Unlock mutex) w1)))"


section \<open>Sequences of operations\<close>

text \<open>What a caller can ask of one engine, and the state after a sequence of requests.\<close>

datatype 'v op =
    OpWrite string string 'v
  | OpRead string string
  | OpReadAll string
  | OpDelete string string

fun exec :: "('v \<Rightarrow> error + bytes) \<Rightarrow> (bytes \<Rightarrow> error + 'v) \<Rightarrow> 'v op \<Rightarrow> sys \<Rightarrow> sys" where
  "exec marshal unmarshal (OpWrite c r v) w = snd (Write marshal c r v w)"
| "exec marshal unmarshal (OpRead c r) w = snd (Read unmarshal c r w)"
| "exec marshal unmarshal (OpReadAll c) w = snd (ReadAll c w)"
| "exec marshal unmarshal (OpDelete c r) w = snd (Delete c r w)"

fun run :: "('v \<Rightarrow> error + bytes) \<Rightarrow> (bytes \<Rightarrow> error + 'v) \<Rightarrow> 'v op list \<Rightarrow> sys \<Rightarrow> sys" where
  "run marshal unmarshal [] w = w"
| "run marshal unmarshal (x # xs) w = run marshal unmarshal xs (exec marshal unmarshal x w)"

section \<open>Auxiliary notions\<close>

text \<open>An ordinary path element: not empty, not \<^verbatim>\<open>.\<close> and not \<^verbatim>\<open>..\<close>.\<close>

definition normal :: "string \<Rightarrow> bool" where
  "normal e = (e \<noteq> [] \<and> e \<noteq> ''.'' \<and> e \<noteq> ''..'')"

definition all_normal :: "string list \<Rightarrow> bool" where
  "all_normal T = (\<forall>e\<in>set T. normal e)"

text \<open>The shape of the elements \<^verbatim>\<open>Clean\<close> keeps: some \<^verbatim>\<open>..\<close>, then ordinary elements.\<close>

definition canon :: "string list \<Rightarrow> bool" where
  "canon T = (\<exists>k ns. T = replicate k ''..'' @ ns \<and> (\<forall>e\<in>set ns. normal e))"

definition stack :: "string \<Rightarrow> string list" where
  "stack p = foldl (cstep (rooted p)) [] (splitp p)"

text \<open>
  A serializer for the examples: a document is a string, written between angle
  brackets; decoding accepts exactly such a text followed by a newline.
\<close>

definition ex_marshal :: "string \<Rightarrow> error + bytes" where
  "ex_marshal v = Inr (''<'' @ v @ ''>'')"

definition ex_unmarshal :: "bytes \<Rightarrow> error + string" where
  "ex_unmarshal b =
     (case b of
        [] \<Rightarrow> Inl CodecError
      | c # cs \<Rightarrow>
          if c = CHR ''<'' \<and> 2 \<le> length cs \<and> last cs = CHR 0x0A \<and> last (butlast cs) = CHR ''>''
          then Inr (butlast (butlast cs)) else Inl CodecError)"

text \<open>A serializer that rejects every document.\<close>

definition ex_reject :: "string \<Rightarrow> error + bytes" where
  "ex_reject v = Inl CodecError"

text \<open>An empty working directory, before any engine exists, and a fresh store in \<^verbatim>\<open>db\<close>.\<close>

definition ex_boot :: sys where
  "ex_boot = \<lparr>driver = \<lparr>mutexes = Map.empty, dir = []\<rparr>, tree = Dir [], heap = 0, trace = []\<rparr>"

definition ex_db :: sys where
  "ex_db = snd (New ''db'' ex_boot)"

text \<open>The store after \<^verbatim>\<open>Write("users", "alice", "hello")\<close>.\<close>

definition ex_users :: sys where
  "ex_users = snd (Write ex_marshal ''users'' ''alice'' ''hello'' ex_db)"


text \<open>What \<^verbatim>\<open>stat\<close> answers on a tree: whether the bare path or, failing that, the path
  with the suffix is there.\<close>

definition found :: "node \<Rightarrow> string \<Rightarrow> bool" where
  "found t p =
     (case stat_tree t p of
        Inr fi \<Rightarrow> True
      | Inl e \<Rightarrow> IsNotExist e \<and> (case stat_tree t (p @ ''.json'') of Inr fi \<Rightarrow> True | Inl e' \<Rightarrow> False))"

text \<open>A store whose collection \<^verbatim>\<open>users\<close> holds the document of \<^verbatim>\<open>alice\<close> in a file
  named without the suffix.\<close>

definition ex_bare :: sys where
  "ex_bare =
     \<lparr>driver = \<lparr>mutexes = Map.empty, dir = ''db''\<rparr>,
      tree = Dir [(''db'', Dir [(''users'', Dir [(''alice'', File ''<hello>\<newline>'')])])],
      heap = 0, trace = []\<rparr>"

text \<open>A name a directory entry can have: an ordinary element without a separator.\<close>

definition valid_name :: "string \<Rightarrow> bool" where
  "valid_name n = (normal n \<and> CHR ''/'' \<notin> set n)"

text \<open>Whether the entry of a name in a directory is a regular file, and its bytes.\<close>

definition entry_is_file :: "(string \<times> node) list \<Rightarrow> string \<Rightarrow> bool" where
  "entry_is_file es n = (case map_of es n of Some (File b) \<Rightarrow> True | _ \<Rightarrow> False)"

definition entry_bytes :: "(string \<times> node) list \<Rightarrow> string \<Rightarrow> bytes" where
  "entry_bytes es n = (case map_of es n of Some (File b) \<Rightarrow> b | _ \<Rightarrow> [])"

text \<open>The store after a second \<^verbatim>\<open>Write\<close> into \<^verbatim>\<open>users\<close>, and after a \<^verbatim>\<open>Write\<close> into the
  collection \<^verbatim>\<open>users/archive\<close>, which puts a directory among the resources of \<^verbatim>\<open>users\<close>.\<close>

definition ex_two :: sys where
  "ex_two = snd (Write ex_marshal ''users'' ''bob'' ''hi'' ex_users)"

definition ex_nested :: sys where
  "ex_nested = snd (Write ex_marshal ''users/archive'' ''old'' ''bye'' ex_two)"

text \<open>The string that \<^verbatim>\<open>Join\<close> cleans for the root and a collection name.\<close>

definition base :: "string \<Rightarrow> string \<Rightarrow> string" where
  "base root collection = (if root = [] then collection else root @ ''/'' @ collection)"

text \<open>The store after a \<^verbatim>\<open>Write\<close> into the collection \<^verbatim>\<open>users/x.json\<close>, which makes
  \<^verbatim>\<open>db/users/x.json\<close> a directory; and after a \<^verbatim>\<open>Write\<close> into the collection \<^verbatim>\<open>/../a\<close>,
  whose directory is \<^verbatim>\<open>a\<close>, beside the root of the store.\<close>

definition ex_suffixed_dir :: sys where
  "ex_suffixed_dir = snd (Write ex_marshal ''users/x.json'' ''r'' ''hello'' ex_db)"

definition ex_outside :: sys where
  "ex_outside = snd (Write ex_marshal ''/../a'' ''r'' ''hello'' ex_db)"

section \<open>Properties of paths\<close>

declare Join.simps [simp del]

lemma splitp_not_Nil [simp]: "splitp s \<noteq> []"
  by (induction s) (auto split: list.splits)

lemma splitp_append_sep: "splitp (a @ CHR ''/'' # b) = splitp a @ splitp b"
  by (induction a) (auto split: list.splits)

lemma splitp_nosep: "CHR ''/'' \<notin> set s \<Longrightarrow> splitp s = [s]"
  by (induction s) auto

lemma splitp_append_nosep:
  "CHR ''/'' \<notin> set t \<Longrightarrow> splitp (s @ t) = butlast (splitp s) @ [last (splitp s) @ t]"
  by (induction s) (auto simp: splitp_nosep split: list.splits)

lemma splitp_elems: "e \<in> set (splitp s) \<Longrightarrow> CHR ''/'' \<notin> set e"
  by (induction s arbitrary: e) (auto split: list.splits if_splits)

lemma joinp_snoc: "xs \<noteq> [] \<Longrightarrow> joinp (xs @ [x]) = joinp xs @ CHR ''/'' # x"
  by (induction xs rule: joinp.induct) auto

lemma joinp_snoc_suffix: "joinp (xs @ [x]) @ s = joinp (xs @ [x @ s])"
  by (induction xs rule: joinp.induct) auto

lemma splitp_joinp:
  "xs \<noteq> [] \<Longrightarrow> \<forall>e\<in>set xs. CHR ''/'' \<notin> set e \<Longrightarrow> splitp (joinp xs) = xs"
  by (induction xs rule: joinp.induct) (auto simp: splitp_nosep splitp_append_sep)


lemma canon_Nil [simp]: "canon []"
  by (simp add: canon_def)

lemma cstep_skip [simp]: "cstep r T [] = T" "cstep r T ''.'' = T"
  by (simp_all add: cstep_def)

lemma cstep_normal [simp]: "normal e \<Longrightarrow> cstep r T e = T @ [e]"
  by (simp add: cstep_def normal_def)

lemma normal_cases: "e = [] \<or> e = ''.'' \<or> e = ''..'' \<or> normal e"
  by (auto simp: normal_def)

lemma canon_last: "canon T \<Longrightarrow> T \<noteq> [] \<Longrightarrow> last T \<noteq> ''..'' \<Longrightarrow> normal (last T) \<and> canon (butlast T)"
  unfolding canon_def
  apply (elim exE conjE)
  subgoal for k ns
    apply (cases ns rule: rev_cases)
     apply simp
    apply (rule conjI)
     apply simp
    apply (rule exI[of _ k], rule exI[of _ "butlast ns"])
    apply (simp add: butlast_append)
    done
  done

lemma canon_snoc_normal: "canon T \<Longrightarrow> normal e \<Longrightarrow> canon (T @ [e])"
  unfolding canon_def
  apply (elim exE conjE)
  subgoal for k ns
    by (rule exI[of _ k], rule exI[of _ "ns @ [e]"]) simp
  done

lemma canon_snoc_dotdot: "canon T \<Longrightarrow> T = [] \<or> last T = ''..'' \<Longrightarrow> canon (T @ [''..''])"
  unfolding canon_def
  apply (elim exE conjE)
  subgoal for k ns
    apply (cases ns rule: rev_cases)
     apply (rule exI[of _ "Suc k"], rule exI[of _ "[]"])
     apply (simp add: replicate_append_same)
    apply (auto simp: normal_def)
    done
  done

lemma canon_cstep:
  assumes "canon T" shows "canon (cstep False T e)"
proof -
  consider "e = [] \<or> e = ''.''" | "normal e" | "e = ''..''" using normal_cases[of e] by blast
  then show ?thesis
  proof cases
    case 1 then show ?thesis using assms by auto
  next
    case 2 then show ?thesis using assms by (simp add: canon_snoc_normal)
  next
    case 3
    show ?thesis
    proof (cases "T \<noteq> [] \<and> last T \<noteq> ''..''")
      case True
      then have "cstep False T e = butlast T" using 3 by (simp add: cstep_def)
      then show ?thesis using canon_last[OF assms] True by simp
    next
      case False
      then have "cstep False T e = T @ [''..'']" using 3 by (auto simp: cstep_def)
      then show ?thesis using canon_snoc_dotdot[OF assms] False by auto
    qed
  qed
qed

lemma canon_foldl: "canon T \<Longrightarrow> canon (foldl (cstep False) T xs)"
  by (induction xs arbitrary: T) (auto simp: canon_cstep)

lemma absorb_step:
  assumes "canon U"
  shows "foldl (cstep r) S (cstep False U x) = cstep r (foldl (cstep r) S U) x"
proof -
  consider "x = [] \<or> x = ''.''" | "normal x" | "x = ''..''" using normal_cases[of x] by blast
  then show ?thesis
  proof cases
    case 1 then show ?thesis by auto
  next
    case 2 then show ?thesis by simp
  next
    case 3
    show ?thesis
    proof (cases "U \<noteq> [] \<and> last U \<noteq> ''..''")
      case True
      then have n: "normal (last U)" using canon_last[OF assms] by blast
      have U: "U = butlast U @ [last U]" using True by simp
      have "foldl (cstep r) S U = foldl (cstep r) S (butlast U) @ [last U]"
        by (subst U) (simp add: n)
      moreover have "cstep False U x = butlast U" using True 3 by (simp add: cstep_def)
      ultimately show ?thesis using n 3 by (simp add: cstep_def normal_def)
    next
      case False
      then have "cstep False U x = U @ [x]" using 3 by (auto simp: cstep_def)
      then show ?thesis by simp
    qed
  qed
qed

lemma absorb: "foldl (cstep r) S (foldl (cstep False) [] xs) = foldl (cstep r) S xs"
proof (induction xs rule: rev_induct)
  case Nil then show ?case by simp
next
  case (snoc x xs)
  have "canon (foldl (cstep False) [] xs)" by (simp add: canon_foldl)
  then show ?case using snoc by (simp add: absorb_step)
qed

lemma foldl_normal: "\<forall>e\<in>set T. normal e \<Longrightarrow> foldl (cstep r) S T = S @ T"
  by (induction T arbitrary: S) auto

lemma cstep_cases:
  "cstep r T x = T \<or> cstep r T x = butlast T \<or> cstep r T x = T @ [x]"
  by (simp add: cstep_def)

lemma set_butlast_subset: "set (butlast T) \<subseteq> set T"
  by (auto dest: in_set_butlastD)

lemma rooted_step_normal:
  assumes "\<forall>e\<in>set T. normal e" shows "\<forall>e\<in>set (cstep True T x). normal e"
proof -
  consider "x = [] \<or> x = ''.''" | "normal x" | "x = ''..''" using normal_cases[of x] by blast
  then show ?thesis
  proof cases
    case 1 then show ?thesis using assms by auto
  next
    case 2 then show ?thesis using assms by simp
  next
    case 3
    then have "cstep True T x = T \<or> cstep True T x = butlast T" by (simp add: cstep_def)
    then show ?thesis using assms set_butlast_subset[of T] by auto
  qed
qed

lemma rooted_foldl_normal: "all_normal T \<Longrightarrow> all_normal (foldl (cstep True) T xs)"
proof (induction xs arbitrary: T)
  case Nil then show ?case by simp
next
  case (Cons x xs)
  have "all_normal (cstep True T x)"
    using rooted_step_normal[of T x] Cons.prems unfolding all_normal_def by blast
  then show ?case using Cons.IH by simp
qed

lemma cstep_subset: "set (cstep r T x) \<subseteq> set T \<union> {x}"
  using cstep_cases[of r T x] set_butlast_subset[of T] by auto

lemma foldl_cstep_subset: "set (foldl (cstep r) T xs) \<subseteq> set T \<union> set xs"
proof (induction xs arbitrary: T)
  case Nil then show ?case by simp
next
  case (Cons x xs)
  show ?case using Cons.IH[of "cstep r T x"] cstep_subset[of r T x] by auto
qed


lemma Clean_stack: "p \<noteq> [] \<Longrightarrow> Clean p = render (rooted p) (stack p)"
  by (simp add: Clean_def stack_def)

lemma stack_nosep: "e \<in> set (stack p) \<Longrightarrow> CHR ''/'' \<notin> set e"
  using foldl_cstep_subset[of "rooted p" "[]" "splitp p"] splitp_elems[of e p]
  by (auto simp: stack_def)

lemma canon_nonempty:
  assumes "canon T" "e \<in> set T" shows "e \<noteq> []"
proof -
  obtain k ns where T: "T = replicate k ''..'' @ ns" and ns: "\<forall>e\<in>set ns. normal e"
    using assms(1) unfolding canon_def by blast
  have "e = ''..'' \<or> e \<in> set ns" using assms(2) T by auto
  then show ?thesis using ns unfolding normal_def by blast
qed

lemma all_normal_canon: "all_normal T \<Longrightarrow> canon T"
  unfolding canon_def all_normal_def
  by (rule exI[of _ 0], rule exI[of _ T]) simp

lemma stack_canon: "canon (stack p)"
proof (cases "rooted p")
  case True
  have "all_normal (foldl (cstep True) [] (splitp p))"
    by (rule rooted_foldl_normal) (simp add: all_normal_def)
  then show ?thesis using True by (simp add: stack_def all_normal_canon)
next
  case False
  then show ?thesis using canon_foldl[of "[]" "splitp p"] by (simp add: stack_def)
qed

lemma stack_rooted_normal: "rooted p \<Longrightarrow> all_normal (stack p)"
  using rooted_foldl_normal[of "[]" "splitp p"] by (simp add: stack_def all_normal_def)

lemma joinp_eq_Nil: "\<forall>e\<in>set T. e \<noteq> [] \<Longrightarrow> joinp T = [] \<longleftrightarrow> T = []"
  by (induction T rule: joinp.induct) auto

lemma joinp_hd: "T \<noteq> [] \<Longrightarrow> hd T \<noteq> [] \<Longrightarrow> joinp T \<noteq> [] \<and> hd (joinp T) = hd (hd T)"
  by (induction T rule: joinp.induct) auto

lemma rooted_render:
  assumes "canon T" "\<forall>e\<in>set T. CHR ''/'' \<notin> set e"
  shows "rooted (render r T) = r"
proof (cases r)
  case True then show ?thesis by (simp add: render_def rooted_def)
next
  case False
  show ?thesis
  proof (cases T)
    case Nil then show ?thesis using False by (simp add: render_def rooted_def)
  next
    case (Cons a T')
    then have a: "a \<noteq> []" using canon_nonempty[OF assms(1), of a] by simp
    have "joinp T \<noteq> [] \<and> hd (joinp T) = hd a" using joinp_hd[of T] Cons a by simp
    moreover have "hd a \<noteq> CHR ''/''" using assms(2) Cons a by (cases a) auto
    ultimately show ?thesis using False by (cases "joinp T") (auto simp: render_def rooted_def)
  qed
qed

lemma splitp_render:
  assumes "canon T" "\<forall>e\<in>set T. CHR ''/'' \<notin> set e"
  shows "splitp (render r T) =
           (if r then (if T = [] then [[], []] else [] # T) else (if T = [] then [''.''] else T))"
proof (cases "T = []")
  case True then show ?thesis by (simp add: render_def)
next
  case False
  have ne: "\<forall>e\<in>set T. e \<noteq> []" using canon_nonempty[OF assms(1)] by blast
  have j: "joinp T \<noteq> []" using joinp_eq_Nil[OF ne] False by simp
  show ?thesis using False j splitp_joinp[OF False assms(2)] by (simp add: render_def)
qed

lemma foldl_canon_self:
  assumes "canon T" shows "foldl (cstep False) [] T = T"
  using assms unfolding canon_def
proof (elim exE conjE)
  fix k ns assume T: "T = replicate k ''..'' @ ns" and ns: "\<forall>e\<in>set ns. normal e"
  have "foldl (cstep False) [] (replicate k ''..'') = replicate k ''..''"
  proof (induction k)
    case 0 then show ?case by simp
  next
    case (Suc k)
    have "replicate (Suc k) ''..'' = replicate k ''..'' @ [''..'']"
      by (simp add: replicate_append_same)
    then show ?case using Suc by (cases k) (auto simp: cstep_def simp del: replicate_Suc)
  qed
  then show ?thesis using T ns by (simp add: foldl_normal)
qed

lemma stack_Clean:
  assumes "p \<noteq> []"
  shows "rooted (Clean p) = rooted p" and "stack (Clean p) = stack p"
proof -
  have c: "canon (stack p)" by (rule stack_canon)
  have n: "\<forall>e\<in>set (stack p). CHR ''/'' \<notin> set e" using stack_nosep by blast
  show r: "rooted (Clean p) = rooted p"
    using rooted_render[OF c n] assms by (simp add: Clean_stack)
  have s: "splitp (Clean p) =
           (if rooted p then (if stack p = [] then [[], []] else [] # stack p)
            else (if stack p = [] then [''.''] else stack p))"
    using splitp_render[OF c n] assms by (simp add: Clean_stack)
  show "stack (Clean p) = stack p"
  proof (cases "rooted p")
    case True
    have "foldl (cstep True) [] (stack p) = stack p"
      using foldl_normal[of "stack p" True "[]"] stack_rooted_normal[OF True]
      by (simp add: all_normal_def)
    then show ?thesis using True r s by (simp add: stack_def[of "Clean p"])
  next
    case False
    then show ?thesis using r s foldl_canon_self[OF c] by (simp add: stack_def[of "Clean p"])
  qed
qed

lemma resolve_Clean: "resolve (Clean p) = resolve p"
proof (cases "p = []")
  case True then show ?thesis by (simp add: Clean_def resolve_def)
next
  case False
  have c: "canon (stack p)" by (rule stack_canon)
  have n: "\<forall>e\<in>set (stack p). CHR ''/'' \<notin> set e" using stack_nosep by blast
  have s: "splitp (Clean p) =
           (if rooted p then (if stack p = [] then [[], []] else [] # stack p)
            else (if stack p = [] then [''.''] else stack p))"
    using splitp_render[OF c n] False by (simp add: Clean_stack)
  show ?thesis
  proof (cases "rooted p")
    case True
    have "foldl (cstep True) [] (stack p) = stack p"
      using foldl_normal[of "stack p" True "[]"] stack_rooted_normal[OF True]
      by (simp add: all_normal_def)
    then show ?thesis using True s by (simp add: resolve_def) (simp add: stack_def)
  next
    case False
    have "foldl (cstep True) [] (stack p) = resolve p"
      using False absorb[of True "[]" "splitp p"] by (simp add: stack_def resolve_def)
    then show ?thesis using False s by (auto simp: resolve_def)
  qed
qed

lemma rooted_append: "a \<noteq> [] \<Longrightarrow> rooted (a @ b) = rooted a"
  by (cases a) (auto simp: rooted_def)

lemma stack_append_sep:
  "a \<noteq> [] \<Longrightarrow> stack (a @ CHR ''/'' # b) = foldl (cstep (rooted a)) (stack a) (splitp b)"
  by (simp add: stack_def rooted_append splitp_append_sep)

lemma Clean_not_Nil [simp]: "Clean p \<noteq> []"
proof (cases "p = []")
  case True then show ?thesis by (simp add: Clean_def)
next
  case False
  then show ?thesis by (simp add: Clean_stack render_def Let_def)
qed

lemma Clean_Clean_append:
  assumes "a \<noteq> []"
  shows "Clean (Clean a @ CHR ''/'' # b) = Clean (a @ CHR ''/'' # b)"
proof -
  have "stack (Clean a @ CHR ''/'' # b) = stack (a @ CHR ''/'' # b)"
    using stack_Clean[OF assms] assms by (simp add: stack_append_sep)
  moreover have "rooted (Clean a @ CHR ''/'' # b) = rooted (a @ CHR ''/'' # b)"
    using stack_Clean(1)[OF assms] assms by (simp add: rooted_append)
  ultimately show ?thesis using assms by (simp add: Clean_stack)
qed

lemma Clean_idem: "Clean (Clean p) = Clean p"
proof (cases "p = []")
  case True then show ?thesis by (simp add: Clean_def render_def rooted_def cstep_def)
next
  case False
  have "Clean (Clean p) = render (rooted (Clean p)) (stack (Clean p))"
    by (rule Clean_stack) simp
  then show ?thesis using stack_Clean[OF False] False by (simp add: Clean_stack[of p])
qed


section \<open>Properties of the filesystem\<close>

lemma map_of_update_same: "map_of (AList.update k v al) k = Some v"
  by (simp add: AList.update_conv')

lemma map_of_update_other: "k' \<noteq> k \<Longrightarrow> map_of (AList.update k v al) k' = map_of al k'"
  by (simp add: AList.update_conv')

lemma map_of_delete_same: "map_of (AList.delete k al) k = None"
  by (simp add: AList.delete_conv')

lemma delete_absent: "map_of al k = None \<Longrightarrow> AList.delete k al = al"
  by (induction al) auto

lemma lookup_alter_same:
  "alter f t ks = Inr t' \<Longrightarrow>
     (\<exists>old. (f old = Inr None \<and> lookup t' ks = Inl ENOENT) \<or>
            (\<exists>n. f old = Inr (Some n) \<and> lookup t' ks = Inr n))"
proof (induction f t ks arbitrary: t' rule: alter.induct)
  case (1 f n) then show ?case by simp
next
  case (2 f b k ks) then show ?case by simp
next
  case (3 f es k)
  then show ?case
    by (auto simp: map_of_update_same map_of_delete_same split: sum.splits option.splits)
next
  case (4 f es k k' ks)
  from "4.prems" obtain n n' where n: "map_of es k = Some n"
    and a: "alter f n (k' # ks) = Inr n'" and t': "t' = Dir (AList.update k n' es)"
    by (auto split: sum.splits option.splits)
  have "lookup t' (k # k' # ks) = lookup n' (k' # ks)"
    using t' by (simp add: map_of_update_same)
  then show ?case using "4.IH"[OF n a] by simp
qed

lemma write_file_Inr: "write_file b old = Inr r \<Longrightarrow> r = Some (File b)"
  by (auto simp: write_file_def split: option.splits node.splits)

lemma lookup_write_file:
  assumes "alter (write_file b) t ks = Inr t'" shows "lookup t' ks = Inr (File b)"
proof -
  from lookup_alter_same[OF assms] obtain old where
    "(write_file b old = Inr None \<and> lookup t' ks = Inl ENOENT) \<or>
     (\<exists>n. write_file b old = Inr (Some n) \<and> lookup t' ks = Inr n)" by blast
  then show ?thesis using write_file_Inr[of b old] by auto
qed

lemma lookup_link: "alter (link n) t ks = Inr t' \<Longrightarrow> lookup t' ks = Inr n"
  using lookup_alter_same[of "link n" t ks t'] by (auto simp: link_def)

lemma lookup_unlink: "alter unlink t ks = Inr t' \<Longrightarrow> lookup t' ks = Inl ENOENT"
  using lookup_alter_same[of unlink t ks t'] by (auto simp: unlink_def)

lemma lookup_alter_other:
  "alter f t ks = Inr t' \<Longrightarrow> \<not> prefix qs ks \<Longrightarrow> \<not> prefix ks qs \<Longrightarrow> lookup t' qs = lookup t qs"
proof (induction f t ks arbitrary: t' qs rule: alter.induct)
  case (1 f n) then show ?case by simp
next
  case (2 f b k ks) then show ?case by simp
next
  case (3 f es k)
  from "3.prems" obtain q qs' where qs: "qs = q # qs'" and qk: "q \<noteq> k"
    by (cases qs) auto
  show ?case using "3.prems"(1) qs qk
    by (auto simp: map_of_update_other split: sum.splits option.splits)
next
  case (4 f es k k' ks)
  from "4.prems"(1) obtain n n' where n: "map_of es k = Some n"
    and a: "alter f n (k' # ks) = Inr n'" and t': "t' = Dir (AList.update k n' es)"
    by (auto split: sum.splits option.splits)
  from "4.prems"(2) obtain q qs' where qs: "qs = q # qs'" by (cases qs) auto
  show ?case
  proof (cases "q = k")
    case True
    have "lookup n' qs' = lookup n qs'"
      using "4.IH"[OF n a, of qs'] "4.prems"(2,3) qs True by simp
    then show ?thesis using t' qs True n by (simp add: map_of_update_same)
  next
    case False
    then show ?thesis using t' qs by (simp add: map_of_update_other)
  qed
qed

lemma lookup_mkdir_all_other:
  "mkdir_all t p = Inr t' \<Longrightarrow> \<not> prefix q p \<Longrightarrow> lookup t' q = lookup t q"
proof (induction t p arbitrary: t' q rule: mkdir_all.induct)
  case (1 b ks) then show ?case by simp
next
  case (2 es) then show ?case by simp
next
  case (3 es k ks)
  let ?n0 = "case map_of es k of None \<Rightarrow> Dir [] | Some n \<Rightarrow> n"
  from "3.prems"(1) obtain n' where a: "mkdir_all ?n0 ks = Inr n'"
    and t': "t' = Dir (AList.update k n' es)"
    by (auto split: sum.splits)
  from "3.prems"(2) obtain x qs where q: "q = x # qs" by (cases q) auto
  show ?case
  proof (cases "x = k")
    case True
    then have np: "\<not> prefix qs ks" using "3.prems"(2) q by simp
    then obtain y qs' where qs: "qs = y # qs'" by (cases qs) auto
    have "lookup n' qs = lookup ?n0 qs" using "3.IH"[OF a np] .
    then show ?thesis using t' q True qs
      by (auto simp: map_of_update_same split: option.splits)
  next
    case False
    then show ?thesis using t' q by (simp add: map_of_update_other)
  qed
qed

lemma unlink_exists:
  "lookup t ks = Inr n \<Longrightarrow> ks \<noteq> [] \<Longrightarrow> \<exists>t'. alter unlink t ks = Inr t'"
proof (induction unlink t ks arbitrary: n rule: alter.induct)
  case (1 n) then show ?case by simp
next
  case (2 b k ks) then show ?case by simp
next
  case (3 es k) then show ?case by (simp add: unlink_def)
next
  case (4 es k k' ks)
  from "4.prems"(1) obtain m where m: "map_of es k = Some m" and l: "lookup m (k' # ks) = Inr n"
    by (auto split: option.splits)
  from "4.hyps"[OF m l] obtain m' where "alter unlink m (k' # ks) = Inr m'" by auto
  then show ?case using m by simp
qed

lemma unlink_absent:
  "lookup t ks = Inl ENOENT \<Longrightarrow> alter unlink t ks = Inl ENOENT \<or> alter unlink t ks = Inr t"
proof (induction unlink t ks rule: alter.induct)
  case (1 n) then show ?case by simp
next
  case (2 b k ks) then show ?case by simp
next
  case (3 es k)
  then show ?case by (auto simp: unlink_def delete_absent split: option.splits)
next
  case (4 es k k' ks)
  show ?case
  proof (cases "map_of es k")
    case None then show ?thesis by simp
  next
    case (Some m)
    then have "lookup m (k' # ks) = Inl ENOENT" using "4.prems" by simp
    from "4.hyps"[OF Some this] show ?thesis using Some
      by (auto simp: AList.update_triv)
  qed
qed


section \<open>The system calls and the driver\<close>

lemma driver_log [simp]: "driver (log ev w) = driver w"
  by (simp add: log_def)

lemma driver_os_Stat [simp]: "driver (snd (os_Stat p w)) = driver w"
  by (simp add: os_Stat_def)

lemma driver_os_MkdirAll [simp]: "driver (snd (os_MkdirAll p w)) = driver w"
  by (simp add: os_MkdirAll_def split: sum.splits)

lemma driver_ioutil_WriteFile [simp]: "driver (snd (ioutil_WriteFile p b w)) = driver w"
  by (simp add: ioutil_WriteFile_def split: sum.splits)

lemma driver_os_Rename [simp]: "driver (snd (os_Rename p q w)) = driver w"
  by (simp add: os_Rename_def split: sum.splits)

lemma driver_ioutil_ReadFile [simp]: "driver (snd (ioutil_ReadFile p w)) = driver w"
  by (simp add: ioutil_ReadFile_def)

lemma driver_ioutil_ReadDir [simp]: "driver (snd (ioutil_ReadDir p w)) = driver w"
  by (simp add: ioutil_ReadDir_def)

lemma driver_os_RemoveAll [simp]: "driver (snd (os_RemoveAll p w)) = driver w"
  by (simp add: os_RemoveAll_def split: sum.splits)

lemma driver_stat [simp]: "driver (snd (stat p w)) = driver w"
proof (cases "os_Stat p w")
  case (Pair r w1)
  then have "driver w1 = driver w" using driver_os_Stat[of p w] by simp
  then show ?thesis using Pair by (simp add: stat_def split: sum.splits)
qed

lemma driver_read_entries [simp]: "driver (snd (read_entries d xs acc w)) = driver w"
proof (induction xs arbitrary: acc w)
  case Nil then show ?case by simp
next
  case (Cons x xs)
  show ?case
  proof (cases "ioutil_ReadFile (Join [d, x]) w")
    case (Pair r w1)
    then have "driver w1 = driver w" using driver_ioutil_ReadFile[of "Join [d, x]" w] by simp
    then show ?thesis using Pair Cons.IH by (simp split: sum.splits)
  qed
qed

lemma driver_Write_locked [simp]: "driver (snd (Write_locked m c r v w)) = driver w"
proof -
  let ?d = "Join [dir (driver w), c]"
  let ?f = "Join [?d, r @ ''.json'']"
  obtain r1 w1 where 1: "os_MkdirAll ?d w = (r1, w1)" by (cases "os_MkdirAll ?d w")
  then have d1: "driver w1 = driver w" using driver_os_MkdirAll[of ?d w] by simp
  show ?thesis
  proof (cases "m v")
    case (Inl e) then show ?thesis using 1 d1 by (simp add: Write_locked_def Let_def split: option.splits)
  next
    case (Inr b)
    obtain r2 w2 where 2: "ioutil_WriteFile (?f @ ''.tmp'') (b @ [CHR 0x0A]) w1 = (r2, w2)"
      by (cases "ioutil_WriteFile (?f @ ''.tmp'') (b @ [CHR 0x0A]) w1")
    then have d2: "driver w2 = driver w"
      using driver_ioutil_WriteFile[of "?f @ ''.tmp''" "b @ [CHR 0x0A]" w1] d1 by simp
    obtain r3 w3 where 3: "os_Rename (?f @ ''.tmp'') ?f w2 = (r3, w3)"
      by (cases "os_Rename (?f @ ''.tmp'') ?f w2")
    then have d3: "driver w3 = driver w" using driver_os_Rename[of "?f @ ''.tmp''" ?f w2] d2 by simp
    show ?thesis using 1 2 3 d1 d2 d3 Inr by (simp add: Write_locked_def Let_def split: option.splits)
  qed
qed

lemma driver_Delete_locked [simp]: "driver (snd (Delete_locked p w)) = driver w"
proof -
  let ?d = "Join [dir (driver w), p]"
  obtain r1 w1 where 1: "stat ?d w = (r1, w1)" by (cases "stat ?d w")
  then have d1: "driver w1 = driver w" using driver_stat[of ?d w] by simp
  obtain r2 w2 where 2: "os_RemoveAll ?d w1 = (r2, w2)" by (cases "os_RemoveAll ?d w1")
  then have d2: "driver w2 = driver w" using driver_os_RemoveAll[of ?d w1] d1 by simp
  obtain r3 w3 where 3: "os_RemoveAll (?d @ ''.json'') w1 = (r3, w3)" by (cases "os_RemoveAll (?d @ ''.json'') w1")
  then have d3: "driver w3 = driver w" using driver_os_RemoveAll[of "?d @ ''.json''" w1] d1 by simp
  show ?thesis using 1 2 3 d1 d2 d3 by (simp add: Delete_locked_def Let_def split: sum.splits option.splits)
qed

lemma getOrCreateMutex_keeps:
  "mutexes (driver w) c = Some m \<Longrightarrow> mutexes (driver (snd (getOrCreateMutex c' w))) c = Some m"
  by (auto simp: getOrCreateMutex_def split: option.splits)

lemma getOrCreateMutex_registers:
  "mutexes (driver (snd (getOrCreateMutex c w))) c = Some (fst (getOrCreateMutex c w))"
  by (auto simp: getOrCreateMutex_def split: option.splits)

lemma getOrCreateMutex_found:
  "mutexes (driver w) c = Some m \<Longrightarrow> getOrCreateMutex c w = (m, w)"
  by (simp add: getOrCreateMutex_def)

lemma Write_keeps:
  assumes "mutexes (driver w) c = Some m"
  shows "mutexes (driver (snd (Write ma c' r v w))) c = Some m"
proof -
  obtain mu w0 where g: "getOrCreateMutex c' w = (mu, w0)" by (cases "getOrCreateMutex c' w")
  then have k: "mutexes (driver w0) c = Some m" using getOrCreateMutex_keeps[OF assms, of c'] by simp
  obtain r1 w1 where b: "Write_locked ma c' r v (log (Lock mu) w0) = (r1, w1)"
    by (cases "Write_locked ma c' r v (log (Lock mu) w0)")
  then have "driver w1 = driver w0" using driver_Write_locked[of ma c' r v "log (Lock mu) w0"] by simp
  then show ?thesis using assms g b k by (simp add: Write_def Let_def)
qed

lemma Delete_keeps:
  assumes "mutexes (driver w) c = Some m"
  shows "mutexes (driver (snd (Delete c' r w))) c = Some m"
proof -
  obtain mu w0 where g: "getOrCreateMutex c' w = (mu, w0)" by (cases "getOrCreateMutex c' w")
  then have k: "mutexes (driver w0) c = Some m" using getOrCreateMutex_keeps[OF assms, of c'] by simp
  obtain r1 w1 where b: "Delete_locked (Join [c', r]) (log (Lock mu) w0) = (r1, w1)"
    by (cases "Delete_locked (Join [c', r]) (log (Lock mu) w0)")
  then have "driver w1 = driver w0" using driver_Delete_locked[of "Join [c', r]" "log (Lock mu) w0"] by simp
  then show ?thesis using g b k by (simp add: Delete_def Let_def)
qed

lemma driver_Read [simp]: "driver (snd (Read u c r w)) = driver w"
proof -
  let ?p = "Join [dir (driver w), c, r]"
  obtain r1 w1 where 1: "stat ?p w = (r1, w1)" by (cases "stat ?p w")
  then have d1: "driver w1 = driver w" using driver_stat[of ?p w] by simp
  obtain r2 w2 where 2: "ioutil_ReadFile (?p @ ''.json'') w1 = (r2, w2)"
    by (cases "ioutil_ReadFile (?p @ ''.json'') w1")
  then have d2: "driver w2 = driver w" using driver_ioutil_ReadFile[of "?p @ ''.json''" w1] d1 by simp
  show ?thesis using 1 2 d1 d2 by (simp add: Read_def Let_def split: sum.splits)
qed

lemma driver_ReadAll [simp]: "driver (snd (ReadAll c w)) = driver w"
proof -
  let ?p = "Join [dir (driver w), c]"
  obtain r1 w1 where 1: "stat ?p w = (r1, w1)" by (cases "stat ?p w")
  then have d1: "driver w1 = driver w" using driver_stat[of ?p w] by simp
  obtain r2 w2 where 2: "ioutil_ReadDir ?p w1 = (r2, w2)" by (cases "ioutil_ReadDir ?p w1")
  then have d2: "driver w2 = driver w" using driver_ioutil_ReadDir[of ?p w1] d1 by simp
  show ?thesis using 1 2 d1 d2 by (simp add: ReadAll_def Let_def split: sum.splits)
qed

lemma exec_keeps:
  "mutexes (driver w) c = Some m \<Longrightarrow> mutexes (driver (exec ma um x w)) c = Some m"
  by (cases x) (simp_all add: Write_keeps Delete_keeps)

lemma run_keeps:
  "mutexes (driver w) c = Some m \<Longrightarrow> mutexes (driver (run ma um xs w)) c = Some m"
  by (induction xs arbitrary: w) (simp_all add: exec_keeps)

section \<open>The lock registry\<close>

text \<open>
  Claim C6.  The registry holds one mutex per collection name for the lifetime of the
  engine: an entry, once present, is still there with the same mutex after any sequence
  of \<^verbatim>\<open>Write\<close>, \<^verbatim>\<open>Read\<close>, \<^verbatim>\<open>ReadAll\<close> and \<^verbatim>\<open>Delete\<close> calls; \<^verbatim>\<open>getOrCreateMutex\<close>
  registers the mutex it returns; and a later call with the same name, after any such
  sequence, returns the same mutex.
\<close>

theorem C6_lock_registry_stable:
  "(mutexes (driver w) c = Some m \<longrightarrow> mutexes (driver (run marshal unmarshal ops w)) c = Some m)
   \<and> mutexes (driver (snd (getOrCreateMutex c w))) c = Some (fst (getOrCreateMutex c w))
   \<and> fst (getOrCreateMutex c (run marshal unmarshal ops (snd (getOrCreateMutex c w))))
       = fst (getOrCreateMutex c w)"
proof (intro conjI impI)
  assume "mutexes (driver w) c = Some m"
  then show "mutexes (driver (run marshal unmarshal ops w)) c = Some m" by (rule run_keeps)
next
  show r: "mutexes (driver (snd (getOrCreateMutex c w))) c = Some (fst (getOrCreateMutex c w))"
    by (rule getOrCreateMutex_registers)
  show "fst (getOrCreateMutex c (run marshal unmarshal ops (snd (getOrCreateMutex c w))))
       = fst (getOrCreateMutex c w)"
    using getOrCreateMutex_found[OF run_keeps[OF r, of marshal unmarshal ops]] by simp
qed

theorem C6_lock_registry_stable_witness:
  "mutexes (driver ex_users) ''users'' = Some 0
   \<and> mutexes (driver (run ex_marshal ex_unmarshal
        [OpWrite ''pets'' ''rex'' ''woof'', OpDelete ''users'' [], OpRead ''users'' ''alice'',
         OpReadAll ''pets''] ex_users)) ''users'' = Some 0"
proof -
  have h: "mutexes (driver ex_users) ''users'' = Some 0" by code_simp
  show ?thesis
    using h C6_lock_registry_stable[of ex_users "''users''" 0 ex_marshal ex_unmarshal
        "[OpWrite ''pets'' ''rex'' ''woof'', OpDelete ''users'' [], OpRead ''users'' ''alice'',
          OpReadAll ''pets'']"]
    by blast
qed

section \<open>Validation of the names\<close>

text \<open>
  Claim C3, amended.  \<^verbatim>\<open>Write\<close> and \<^verbatim>\<open>Read\<close> with an empty collection or an empty
  resource name, and \<^verbatim>\<open>ReadAll\<close> with an empty collection name, return their
  \<^verbatim>\<open>Missing ...\<close> error and leave the whole state as it was: no system call is logged,
  the tree and the lock registry are unchanged.  \<^verbatim>\<open>Delete\<close> checks neither name.
\<close>

theorem C3_validation_before_filesystem:
  fixes marshal :: "'v \<Rightarrow> error + bytes" and unmarshal :: "bytes \<Rightarrow> error + 'u"
  shows
  "Write marshal [] resource v w
     = (Some (Errorf ''Missing collection - no place to save records''), w)
   \<and> (collection \<noteq> [] \<longrightarrow>
        Write marshal collection [] v w
          = (Some (Errorf ''Missing resource - unable to save records (no name)''), w))
   \<and> Read unmarshal [] resource w = (Inl (Errorf ''Missing collection - unable to read''), w)
   \<and> (collection \<noteq> [] \<longrightarrow>
        Read unmarshal collection [] w
          = (Inl (Errorf ''Missing resource - unable to save record (no name)''), w))
   \<and> ReadAll [] w = (Inl (Errorf ''Missing collection - unable to read''), w)"
  by (simp add: Write_def Read_def ReadAll_def)

theorem C3_validation_before_filesystem_witness:
  "''users'' \<noteq> []
   \<and> Write ex_marshal ''users'' [] ''hello'' ex_users
       = (Some (Errorf ''Missing resource - unable to save records (no name)''), ex_users)
   \<and> Read ex_unmarshal ''users'' [] ex_users
       = (Inl (Errorf ''Missing resource - unable to save record (no name)''), ex_users)"
  using C3_validation_before_filesystem
          [of ex_marshal "[]" "''hello''" ex_users "''users''" ex_unmarshal]
  by simp

text \<open>
  \<^verbatim>\<open>Delete("users", "")\<close> on a store that holds the collection \<^verbatim>\<open>users\<close> returns no
  error, after a \<^verbatim>\<open>Stat\<close> and a \<^verbatim>\<open>RemoveAll\<close> of the collection directory, which is gone.
\<close>

theorem C3_counterexample:
  "fst (Delete ''users'' [] ex_users) = None
   \<and> lookup (tree ex_users) [''db'', ''users'', ''alice.json''] = Inr (File ''<hello>\<newline>'')
   \<and> lookup (tree (snd (Delete ''users'' [] ex_users))) [''db'', ''users''] = Inl ENOENT
   \<and> trace (snd (Delete ''users'' [] ex_users))
        = trace ex_users @ [Lock 0, Stat ''db/users'', RemoveAll ''db/users'', Unlock 0]"
  by code_simp

section \<open>Reading one resource\<close>

lemma stat_result:
  "stat p w =
     (case stat_tree (tree w) p of
        Inr fi \<Rightarrow> (Inr fi, log (Stat p) w)
      | Inl e \<Rightarrow>
          if IsNotExist e
          then (stat_tree (tree w) (p @ ''.json''), log (Stat (p @ ''.json'')) (log (Stat p) w))
          else (Inl e, log (Stat p) w))"
  by (simp add: stat_def os_Stat_def log_def split: sum.splits)

lemma tree_stat [simp]: "tree (snd (stat p w)) = tree w"
  by (simp add: stat_result log_def split: sum.splits)

lemma found_stat: "found (tree w) p \<longleftrightarrow> (\<exists>fi. fst (stat p w) = Inr fi)"
  by (auto simp: found_def stat_result split: sum.splits)

text \<open>
  Claim C2, amended.  \<^verbatim>\<open>Read\<close> with non-empty names probes the bare path and, only when
  that does not exist, the path with the suffix; it fails with the not-exist error when
  neither exists.  Whichever probe succeeded, the file it then reads is the path with
  the suffix: the result is the decoding of that file, or the error of reading it.  So
  a resource found under the bare path, with no suffixed sibling, is not read: the call
  fails with the not-exist error of the read.  The tree is never changed.
\<close>

theorem C2_read_resolution:
  fixes unmarshal :: "bytes \<Rightarrow> error + 'v"
  assumes "collection \<noteq> []" and "resource \<noteq> []"
    and "p = Join [dir (driver w), collection, resource]"
  shows
  "trace (snd (Read unmarshal collection resource w))
     = trace w @ [Stat p]
         @ (if stat_tree (tree w) p = Inl ENOENT then [Stat (p @ ''.json'')] else [])
         @ (if found (tree w) p then [ReadFile (p @ ''.json'')] else [])
   \<and> tree (snd (Read unmarshal collection resource w)) = tree w
   \<and> (stat_tree (tree w) p = Inl ENOENT \<and> stat_tree (tree w) (p @ ''.json'') = Inl ENOENT \<longrightarrow>
        fst (Read unmarshal collection resource w) = Inl (PathError ENOENT))
   \<and> (\<not> found (tree w) p \<longrightarrow> (\<exists>e. fst (Read unmarshal collection resource w) = Inl (PathError e)))
   \<and> (found (tree w) p \<longrightarrow>
        fst (Read unmarshal collection resource w)
          = (case readfile_tree (tree w) (p @ ''.json'') of
               Inl e \<Rightarrow> Inl (PathError e)
             | Inr b \<Rightarrow> unmarshal b))
   \<and> ((\<exists>fi. stat_tree (tree w) p = Inr fi) \<and> readfile_tree (tree w) (p @ ''.json'') = Inl ENOENT \<longrightarrow>
        fst (Read unmarshal collection resource w) = Inl (PathError ENOENT))"
  using assms
  by (auto simp: Read_def Let_def stat_result found_def ioutil_ReadFile_def log_def IsNotExist_def
           split: sum.splits)

theorem C2_read_resolution_witness:
  "''users'' \<noteq> [] \<and> ''alice'' \<noteq> []
   \<and> ''db/users/alice'' = Join [dir (driver ex_users), ''users'', ''alice'']
   \<and> found (tree ex_users) ''db/users/alice''
   \<and> stat_tree (tree ex_users) ''db/users/alice'' = Inl ENOENT
   \<and> fst (Read ex_unmarshal ''users'' ''alice'' ex_users) = Inr ''hello''
   \<and> trace (snd (Read ex_unmarshal ''users'' ''alice'' ex_users))
       = trace ex_users
           @ [Stat ''db/users/alice'', Stat ''db/users/alice.json'', ReadFile ''db/users/alice.json'']"
proof -
  have h1: "''users'' \<noteq> []" and h2: "''alice'' \<noteq> []" by simp_all
  have h3: "Join [dir (driver ex_users), ''users'', ''alice''] = ''db/users/alice''" by code_simp
  have h4: "found (tree ex_users) ''db/users/alice''" by code_simp
  have h5: "stat_tree (tree ex_users) ''db/users/alice'' = Inl ENOENT" by code_simp
  have h6: "readfile_tree (tree ex_users) ''db/users/alice.json'' = Inr ''<hello>\<newline>''" by code_simp
  have h7: "ex_unmarshal ''<hello>\<newline>'' = Inr ''hello''" by code_simp
  show ?thesis
    using C2_read_resolution[OF h1 h2 h3[symmetric], of ex_unmarshal] h3 h4 h5 h6 h7 by simp
qed

text \<open>
  The collection \<^verbatim>\<open>users\<close> holds the regular file \<^verbatim>\<open>alice\<close> and no \<^verbatim>\<open>alice.json\<close>: the
  probe of the bare path succeeds, and \<^verbatim>\<open>Read\<close> fails on reading \<^verbatim>\<open>alice.json\<close>.
\<close>

theorem C2_counterexample:
  "stat_tree (tree ex_bare) ''db/users/alice'' = Inr ModeRegular
   \<and> stat_tree (tree ex_bare) ''db/users/alice.json'' = Inl ENOENT
   \<and> fst (Read ex_unmarshal ''users'' ''alice'' ex_bare) = Inl (PathError ENOENT)
   \<and> trace (snd (Read ex_unmarshal ''users'' ''alice'' ex_bare))
       = [Stat ''db/users/alice'', ReadFile ''db/users/alice.json'']"
  by code_simp

section \<open>Reading a whole collection\<close>

lemma lookup_snoc:
  "lookup t ks = Inr (Dir es) \<Longrightarrow>
   lookup t (ks @ [n]) = (case map_of es n of None \<Rightarrow> Inl ENOENT | Some x \<Rightarrow> Inr x)"
proof (induction t ks rule: lookup.induct)
  case (1 t) then show ?case by (simp split: option.splits)
next
  case (2 b k ks) then show ?case by simp
next
  case (3 ds k ks) then show ?case by (cases "map_of ds k") simp_all
qed

lemma Join2: "a \<noteq> [] \<Longrightarrow> Join [a, b] = Clean (a @ CHR ''/'' # b)"
  by (simp add: Join.simps)

lemma Join2_not_Nil [simp]: "b \<noteq> [] \<Longrightarrow> Join [a, b] \<noteq> []"
  by (simp add: Join.simps)

lemma resolve_append_sep:
  "resolve (a @ CHR ''/'' # b) = foldl (cstep True) (resolve a) (splitp b)"
  by (simp add: resolve_def splitp_append_sep)

lemma resolve_Join_name:
  assumes "d \<noteq> []" "valid_name n"
  shows "resolve (Join [d, n]) = resolve d @ [n]"
proof -
  have "splitp n = [n]" using assms(2) by (simp add: valid_name_def splitp_nosep)
  then show ?thesis
    using assms by (simp add: Join2 resolve_Clean resolve_append_sep valid_name_def)
qed

lemma readfile_entry:
  assumes "d \<noteq> []" "valid_name n" "lookup t (resolve d) = Inr (Dir es)"
  shows "readfile_tree t (Join [d, n]) =
           (case map_of es n of
              None \<Rightarrow> Inl ENOENT
            | Some (File b) \<Rightarrow> Inr b
            | Some (Dir ds) \<Rightarrow> Inl EISDIR)"
proof -
  have n: "n \<noteq> []" using assms(2) by (simp add: valid_name_def normal_def)
  have "lookup t (resolve (Join [d, n])) = (case map_of es n of None \<Rightarrow> Inl ENOENT | Some x \<Rightarrow> Inr x)"
    using lookup_snoc[OF assms(3)] resolve_Join_name[OF assms(1,2)] by simp
  then show ?thesis using n
    by (simp add: readfile_tree_def split: option.splits node.splits)
qed

lemma read_entries_files:
  assumes "d \<noteq> []" "lookup (tree w) (resolve d) = Inr (Dir es)"
    and "\<forall>n\<in>set ns. valid_name n \<and> entry_is_file es n"
  shows "read_entries d ns acc w =
           (Inr (acc @ map (entry_bytes es) ns),
            w\<lparr>trace := trace w @ map (\<lambda>n. ReadFile (Join [d, n])) ns\<rparr>)"
  using assms
proof (induction ns arbitrary: acc w)
  case Nil then show ?case by simp
next
  case (Cons n ns)
  have v: "valid_name n" and f: "entry_is_file es n" using Cons.prems(3) by simp_all
  from f obtain b where b: "map_of es n = Some (File b)"
    by (auto simp: entry_is_file_def split: option.splits node.splits)
  have r: "ioutil_ReadFile (Join [d, n]) w = (Inr b, log (ReadFile (Join [d, n])) w)"
    using readfile_entry[OF Cons.prems(1) v Cons.prems(2)] b by (simp add: ioutil_ReadFile_def)
  have t: "lookup (tree (log (ReadFile (Join [d, n])) w)) (resolve d) = Inr (Dir es)"
    using Cons.prems(2) by (simp add: log_def)
  have "read_entries d ns (acc @ [b]) (log (ReadFile (Join [d, n])) w) =
          (Inr ((acc @ [b]) @ map (entry_bytes es) ns),
           (log (ReadFile (Join [d, n])) w)
             \<lparr>trace := trace (log (ReadFile (Join [d, n])) w) @ map (\<lambda>n. ReadFile (Join [d, n])) ns\<rparr>)"
    using Cons.IH[OF Cons.prems(1) t] Cons.prems(3) by simp
  then show ?case using r b by (simp add: log_def entry_bytes_def)
qed

lemma read_entries_directory:
  assumes "d \<noteq> []" "lookup (tree w) (resolve d) = Inr (Dir es)"
    and "\<forall>n\<in>set ns. valid_name n \<and> n \<in> fst ` set es"
    and "\<exists>n\<in>set ns. \<not> entry_is_file es n"
  shows "fst (read_entries d ns acc w) = Inl (PathError EISDIR)
         \<and> tree (snd (read_entries d ns acc w)) = tree w"
  using assms
proof (induction ns arbitrary: acc w)
  case Nil then show ?case by simp
next
  case (Cons n ns)
  have v: "valid_name n" and k: "n \<in> fst ` set es" using Cons.prems(3) by simp_all
  from k obtain x where x: "map_of es n = Some x"
    by (cases "map_of es n") (auto simp: map_of_eq_None_iff)
  show ?case
  proof (cases x)
    case (Dir ds)
    then have "ioutil_ReadFile (Join [d, n]) w = (Inl EISDIR, log (ReadFile (Join [d, n])) w)"
      using readfile_entry[OF Cons.prems(1) v Cons.prems(2)] x by (simp add: ioutil_ReadFile_def)
    then show ?thesis by (simp add: log_def)
  next
    case (File b)
    then have r: "ioutil_ReadFile (Join [d, n]) w = (Inr b, log (ReadFile (Join [d, n])) w)"
      using readfile_entry[OF Cons.prems(1) v Cons.prems(2)] x by (simp add: ioutil_ReadFile_def)
    have t: "lookup (tree (log (ReadFile (Join [d, n])) w)) (resolve d) = Inr (Dir es)"
      using Cons.prems(2) by (simp add: log_def)
    have "entry_is_file es n" using x File by (simp add: entry_is_file_def)
    then have e: "\<exists>n\<in>set ns. \<not> entry_is_file es n" using Cons.prems(4) by auto
    have a: "\<forall>n\<in>set ns. valid_name n \<and> n \<in> fst ` set es" using Cons.prems(3) by simp
    show ?thesis using Cons.IH[OF Cons.prems(1) t a e, of "acc @ [b]"] r by (simp add: log_def)
  qed
qed

lemma ReadAll_listing:
  assumes "collection \<noteq> []" and "d = Join [dir (driver w), collection]"
    and "lookup (tree w) (resolve d) = Inr (Dir es)"
  shows "ReadAll collection w =
           read_entries d (sort (map fst es)) [] (log (ReadDir d) (log (Stat d) w))"
proof -
  have d: "d \<noteq> []" using assms(1,2) by simp
  have s: "stat_tree (tree w) d = Inr ModeDir" using d assms(3) by (simp add: stat_tree_def)
  have r: "readdir_tree (tree w) d = Inr (sort (map fst es))"
    using d assms(3) by (simp add: readdir_tree_def)
  show ?thesis using assms(1,2) s r
    by (simp add: ReadAll_def Let_def stat_result ioutil_ReadDir_def log_def)
qed

text \<open>
  Claim C7.  On a collection whose directory exists, \<^verbatim>\<open>ReadAll\<close> lists the directory
  and reads every entry with \<^verbatim>\<open>ReadFile\<close>, in the order of the listing.  When every
  entry is a regular file the result is the list of their bytes as stored, one string
  per entry, and nothing is decoded; when some entry cannot be read the whole call
  returns an error and no records.  The tree is not changed.
\<close>

theorem C7_readall_raw_or_error:
  assumes "collection \<noteq> []" and "d = Join [dir (driver w), collection]"
    and "lookup (tree w) (resolve d) = Inr (Dir es)"
    and "\<forall>n\<in>fst ` set es. valid_name n"
  shows
  "(if \<forall>n\<in>fst ` set es. entry_is_file es n
    then ReadAll collection w =
           (Inr (map (entry_bytes es) (sort (map fst es))),
            w\<lparr>trace := trace w @ [Stat d, ReadDir d]
                         @ map (\<lambda>n. ReadFile (Join [d, n])) (sort (map fst es))\<rparr>)
         \<and> length (map (entry_bytes es) (sort (map fst es))) = length es
    else (\<exists>e. fst (ReadAll collection w) = Inl (PathError e))
         \<and> tree (snd (ReadAll collection w)) = tree w)"
proof -
  let ?w = "log (ReadDir d) (log (Stat d) w)"
  let ?ns = "sort (map fst es)"
  have d: "d \<noteq> []" using assms(1,2) by simp
  have l: "ReadAll collection w = read_entries d ?ns [] ?w"
    by (rule ReadAll_listing[OF assms(1,2,3)])
  have t: "lookup (tree ?w) (resolve d) = Inr (Dir es)" using assms(3) by (simp add: log_def)
  show ?thesis
  proof (cases "\<forall>n\<in>fst ` set es. entry_is_file es n")
    case True
    then have "\<forall>n\<in>set ?ns. valid_name n \<and> entry_is_file es n" using assms(4) by simp
    from read_entries_files[OF d t this, of "[]"]
    have "ReadAll collection w =
           (Inr (map (entry_bytes es) (sort (map fst es))),
            w\<lparr>trace := trace w @ [Stat d, ReadDir d]
                         @ map (\<lambda>n. ReadFile (Join [d, n])) (sort (map fst es))\<rparr>)
         \<and> length (map (entry_bytes es) (sort (map fst es))) = length es"
      using l by (simp add: log_def)
    then show ?thesis by (subst if_P[OF True])
  next
    case False
    have a: "\<forall>n\<in>set ?ns. valid_name n \<and> n \<in> fst ` set es" using assms(4) by simp
    have e: "\<exists>n\<in>set ?ns. \<not> entry_is_file es n" using False by simp
    from read_entries_directory[OF d t a e, of "[]"]
    have "(\<exists>e. fst (ReadAll collection w) = Inl (PathError e))
         \<and> tree (snd (ReadAll collection w)) = tree w"
      using l by (simp add: log_def)
    then show ?thesis by (subst if_not_P[OF False])
  qed
qed

theorem C7_readall_raw_or_error_witness:
  "''users'' \<noteq> [] \<and> ''db/users'' = Join [dir (driver ex_two), ''users'']
   \<and> lookup (tree ex_two) (resolve ''db/users'')
       = Inr (Dir [(''alice.json'', File ''<hello>\<newline>''), (''bob.json'', File ''<hi>\<newline>'')])
   \<and> ReadAll ''users'' ex_two =
       (Inr [''<hello>\<newline>'', ''<hi>\<newline>''],
        ex_two\<lparr>trace := trace ex_two @ [Stat ''db/users'', ReadDir ''db/users'',
                    ReadFile ''db/users/alice.json'', ReadFile ''db/users/bob.json'']\<rparr>)"
proof -
  let ?es = "[(''alice.json'', File ''<hello>\<newline>''), (''bob.json'', File ''<hi>\<newline>'')]"
  have h1: "''users'' \<noteq> []" by simp
  have h2: "Join [dir (driver ex_two), ''users''] = ''db/users''" by code_simp
  have h3: "lookup (tree ex_two) (resolve ''db/users'') = Inr (Dir ?es)" by code_simp
  have h4: "\<forall>n\<in>fst ` set ?es. valid_name n" by code_simp
  have h5: "\<forall>n\<in>fst ` set ?es. entry_is_file ?es n" by code_simp
  have h6: "sort (map fst ?es) = [''alice.json'', ''bob.json'']" by code_simp
  have h7: "map (entry_bytes ?es) [''alice.json'', ''bob.json''] = [''<hello>\<newline>'', ''<hi>\<newline>'']"
    by code_simp
  have h8: "Join [''db/users'', ''alice.json''] = ''db/users/alice.json''" by code_simp
  have h9: "Join [''db/users'', ''bob.json''] = ''db/users/bob.json''" by code_simp
  have "ReadAll ''users'' ex_two =
           (Inr (map (entry_bytes ?es) (sort (map fst ?es))),
            ex_two\<lparr>trace := trace ex_two @ [Stat ''db/users'', ReadDir ''db/users'']
                         @ map (\<lambda>n. ReadFile (Join [''db/users'', n])) (sort (map fst ?es))\<rparr>)"
    using C7_readall_raw_or_error[OF h1 h2[symmetric] h3 h4] h5 by presburger
  then show ?thesis using h2 h3 h6 h7 h8 h9 by simp
qed

text \<open>
  Claim C10.  \<^verbatim>\<open>ReadAll\<close> reads the entries of the collection directory with
  \<^verbatim>\<open>ReadFile\<close> whatever they are: when one of them is a directory, the read of the first
  such entry in the listing fails and the whole call returns that error, although the
  regular files of the collection are readable.
\<close>

theorem C10_readall_fails_on_subdirectory:
  assumes "collection \<noteq> []" and "d = Join [dir (driver w), collection]"
    and "lookup (tree w) (resolve d) = Inr (Dir es)"
    and "\<forall>n\<in>fst ` set es. valid_name n"
    and "map_of es n = Some (Dir ds)"
  shows "fst (ReadAll collection w) = Inl (PathError EISDIR)"
proof -
  let ?w = "log (ReadDir d) (log (Stat d) w)"
  let ?ns = "sort (map fst es)"
  have d: "d \<noteq> []" using assms(1,2) by simp
  have l: "ReadAll collection w = read_entries d ?ns [] ?w"
    by (rule ReadAll_listing[OF assms(1,2,3)])
  have t: "lookup (tree ?w) (resolve d) = Inr (Dir es)" using assms(3) by (simp add: log_def)
  have a: "\<forall>n\<in>set ?ns. valid_name n \<and> n \<in> fst ` set es" using assms(4) by simp
  have "n \<in> fst ` set es" using assms(5) by (metis map_of_eq_None_iff option.distinct(1))
  moreover have "\<not> entry_is_file es n" using assms(5) by (simp add: entry_is_file_def)
  ultimately have e: "\<exists>n\<in>set ?ns. \<not> entry_is_file es n" by auto
  from read_entries_directory[OF d t a e, of "[]"] show ?thesis using l by simp
qed

theorem C10_readall_fails_on_subdirectory_witness:
  "''users'' \<noteq> [] \<and> ''db/users'' = Join [dir (driver ex_nested), ''users'']
   \<and> lookup (tree ex_nested) (resolve ''db/users'')
       = Inr (Dir [(''alice.json'', File ''<hello>\<newline>''), (''bob.json'', File ''<hi>\<newline>''),
                   (''archive'', Dir [(''old.json'', File ''<bye>\<newline>'')])])
   \<and> fst (ReadAll ''users'' ex_nested) = Inl (PathError EISDIR)"
proof -
  let ?es = "[(''alice.json'', File ''<hello>\<newline>''), (''bob.json'', File ''<hi>\<newline>''),
              (''archive'', Dir [(''old.json'', File ''<bye>\<newline>'')])]"
  have h1: "''users'' \<noteq> []" by simp
  have h2: "Join [dir (driver ex_nested), ''users''] = ''db/users''" by code_simp
  have h3: "lookup (tree ex_nested) (resolve ''db/users'') = Inr (Dir ?es)" by code_simp
  have h4: "\<forall>n\<in>fst ` set ?es. valid_name n" by code_simp
  have h5: "map_of ?es ''archive'' = Some (Dir [(''old.json'', File ''<bye>\<newline>'')])" by simp
  show ?thesis
    using C10_readall_fails_on_subdirectory[OF h1 h2[symmetric] h3 h4 h5] h2 h3 by simp
qed

section \<open>The paths of a resource\<close>

lemma base_not_Nil [simp]: "c \<noteq> [] \<Longrightarrow> base root c \<noteq> []"
  by (simp add: base_def)

lemma Join_base: "c \<noteq> [] \<Longrightarrow> Join [root, c] = Clean (base root c)"
  by (simp add: Join.simps base_def)

lemma Join3_base: "c \<noteq> [] \<Longrightarrow> Join [root, c, r] = Clean (base root c @ CHR ''/'' # r)"
  by (simp add: Join.simps base_def)

lemma Join_Join_base:
  "c \<noteq> [] \<Longrightarrow> Join [Join [root, c], x] = Clean (base root c @ CHR ''/'' # x)"
  by (simp add: Join_base Join2 Clean_Clean_append)

lemma normal_append: "normal n \<Longrightarrow> normal (n @ s)"
  by (cases n; cases "tl n"; cases "tl (tl n)") (auto simp: normal_def)

lemma normal_json [simp]: "normal (x @ ''.json'')"
  by (cases x; cases "tl x"; cases "tl (tl x)") (auto simp: normal_def)

lemma last_splitp_append_sep: "last (splitp (a @ CHR ''/'' # b)) = last (splitp b)"
  by (simp add: splitp_append_sep)

lemma butlast_splitp_append_sep:
  "butlast (splitp (a @ CHR ''/'' # b)) = splitp a @ butlast (splitp b)"
  by (simp add: splitp_append_sep butlast_append)

lemma foldl_splitp_last:
  assumes "normal (last (splitp q))"
  shows "foldl (cstep r) S (splitp q) = foldl (cstep r) S (butlast (splitp q)) @ [last (splitp q)]"
proof -
  obtain xs n where x: "splitp q = xs @ [n]"
    using splitp_not_Nil[of q] by (cases "splitp q" rule: rev_cases) auto
  then show ?thesis using assms by simp
qed

lemma resolve_last:
  "normal (last (splitp q)) \<Longrightarrow>
   resolve q = foldl (cstep True) [] (butlast (splitp q)) @ [last (splitp q)]"
  unfolding resolve_def by (rule foldl_splitp_last)

lemma resolve_suffix:
  assumes "normal (last (splitp q))" "CHR ''/'' \<notin> set s"
  shows "resolve (q @ s) = butlast (resolve q) @ [last (splitp q) @ s]"
proof -
  have "resolve (q @ s) = foldl (cstep True) [] (butlast (splitp q) @ [last (splitp q) @ s])"
    unfolding resolve_def using splitp_append_nosep[OF assms(2), of q] by simp
  then show ?thesis using resolve_last[OF assms(1)] normal_append[OF assms(1), of s] by simp
qed

lemma last_splitp_Clean:
  assumes "p \<noteq> []" "normal (last (splitp p))"
  shows "last (splitp (Clean p)) = last (splitp p)"
proof -
  have c: "canon (stack p)" by (rule stack_canon)
  have n: "\<forall>e\<in>set (stack p). CHR ''/'' \<notin> set e" using stack_nosep by blast
  have s: "stack p = foldl (cstep (rooted p)) [] (butlast (splitp p)) @ [last (splitp p)]"
    unfolding stack_def by (rule foldl_splitp_last[OF assms(2)])
  then have ne: "stack p \<noteq> []" by simp
  have "splitp (Clean p) = (if rooted p then [] # stack p else stack p)"
    using splitp_render[OF c n, of "rooted p"] ne assms(1) by (simp add: Clean_stack)
  then show ?thesis using s ne by (simp del: splitp_not_Nil)
qed

text \<open>The final path of \<^verbatim>\<open>Write\<close>, its temporary path, and the path \<^verbatim>\<open>Read\<close> reads.\<close>

lemma resolve_final:
  assumes "c \<noteq> []"
  shows "resolve (Join [Join [root, c], r @ ''.json''])
           = foldl (cstep True) (resolve (base root c)) (butlast (splitp r))
               @ [last (splitp r) @ ''.json'']"
proof -
  have "splitp (r @ ''.json'') = butlast (splitp r) @ [last (splitp r) @ ''.json'']"
    by (rule splitp_append_nosep) simp
  then show ?thesis using assms
    by (simp add: Join_Join_base resolve_Clean resolve_append_sep)
qed

lemma last_splitp_final:
  assumes "c \<noteq> []"
  shows "last (splitp (Join [Join [root, c], r @ ''.json''])) = last (splitp r) @ ''.json''"
proof -
  have s: "splitp (r @ ''.json'') = butlast (splitp r) @ [last (splitp r) @ ''.json'']"
    by (rule splitp_append_nosep) simp
  have l: "last (splitp (base root c @ CHR ''/'' # r @ ''.json'')) = last (splitp r) @ ''.json''"
    using s by (simp add: last_splitp_append_sep)
  show ?thesis
    using last_splitp_Clean[of "base root c @ CHR ''/'' # r @ ''.json''"] l assms
    by (simp add: Join_Join_base)
qed

lemma resolve_temp:
  assumes "c \<noteq> []"
  shows "resolve (Join [Join [root, c], r @ ''.json''] @ ''.tmp'')
           = foldl (cstep True) (resolve (base root c)) (butlast (splitp r))
               @ [last (splitp r) @ ''.json.tmp'']"
proof -
  let ?f = "Join [Join [root, c], r @ ''.json'']"
  have "resolve (?f @ ''.tmp'') = butlast (resolve ?f) @ [last (splitp ?f) @ ''.tmp'']"
    by (rule resolve_suffix) (simp_all add: last_splitp_final[OF assms])
  then show ?thesis by (simp add: resolve_final[OF assms] last_splitp_final[OF assms])
qed

lemma resolve_record_json:
  assumes "c \<noteq> []" "normal (last (splitp r))"
  shows "resolve (Join [root, c, r] @ ''.json'') = resolve (Join [Join [root, c], r @ ''.json''])"
    and "resolve (Join [root, c, r])
           = foldl (cstep True) (resolve (base root c)) (butlast (splitp r)) @ [last (splitp r)]"
proof -
  let ?p = "base root c @ CHR ''/'' # r"
  have l: "last (splitp ?p) = last (splitp r)" by (simp add: last_splitp_append_sep)
  have lc: "last (splitp (Clean ?p)) = last (splitp r)"
    using last_splitp_Clean[of ?p] l assms(2) by simp
  have "resolve ?p = foldl (cstep True) [] (butlast (splitp ?p)) @ [last (splitp ?p)]"
    by (rule resolve_last) (simp add: l assms(2))
  then have "resolve ?p
           = foldl (cstep True) (resolve (base root c)) (butlast (splitp r)) @ [last (splitp r)]"
    by (simp only: l butlast_splitp_append_sep foldl_append resolve_def)
  then show r: "resolve (Join [root, c, r])
           = foldl (cstep True) (resolve (base root c)) (butlast (splitp r)) @ [last (splitp r)]"
    using assms(1) by (simp add: Join3_base resolve_Clean)
  have "resolve (Clean ?p @ ''.json'') = butlast (resolve (Clean ?p)) @ [last (splitp (Clean ?p)) @ ''.json'']"
    by (rule resolve_suffix) (simp_all add: lc assms(2))
  then show "resolve (Join [root, c, r] @ ''.json'') = resolve (Join [Join [root, c], r @ ''.json''])"
    using r assms(1) lc by (simp add: Join3_base resolve_final)
qed

lemma foldl_no_dotdot:
  "''..'' \<notin> set xs \<Longrightarrow> foldl (cstep True) S xs = S @ filter normal xs"
proof (induction xs arbitrary: S)
  case Nil then show ?case by simp
next
  case (Cons x xs)
  have "x = [] \<or> x = ''.'' \<or> normal x" using normal_cases[of x] Cons.prems by auto
  then show ?case using Cons by (auto simp: normal_def)
qed

lemma final_below_dir:
  assumes "c \<noteq> []" "''..'' \<notin> set (splitp r)"
  shows "\<not> prefix (resolve (Join [Join [root, c], r @ ''.json''])) (resolve (Join [root, c]))"
proof -
  have "''..'' \<notin> set (butlast (splitp r))" using assms(2) by (auto dest: in_set_butlastD)
  then have "resolve (Join [Join [root, c], r @ ''.json''])
        = resolve (base root c) @ (filter normal (butlast (splitp r)) @ [last (splitp r) @ ''.json''])"
    by (simp add: resolve_final[OF assms(1)] foldl_no_dotdot)
  moreover have "resolve (Join [root, c]) = resolve (base root c)"
    using assms(1) by (simp add: Join_base resolve_Clean)
  ultimately show ?thesis by (simp add: prefix_def)
qed

lemma siblings_not_prefix: "a \<noteq> b \<Longrightarrow> \<not> prefix (V @ [a]) (V @ [b])"
  by (simp add: prefix_def)

section \<open>Writing a resource\<close>

lemma lookup_snoc_parent:
  "lookup t (V @ [a]) = Inr x \<Longrightarrow> \<exists>es. lookup t V = Inr (Dir es)"
proof (induction t V rule: lookup.induct)
  case (1 t)
  then show ?case by (cases t) simp_all
next
  case (2 b k ks) then show ?case by simp
next
  case (3 ds k ks) then show ?case by (cases "map_of ds k") simp_all
qed

lemma lookup_sibling:
  assumes "lookup t (V @ [a]) = Inr x"
  shows "lookup t (V @ [b]) = Inl ENOENT \<or> (\<exists>y. lookup t (V @ [b]) = Inr y)"
proof -
  obtain es where "lookup t V = Inr (Dir es)" using lookup_snoc_parent[OF assms] by blast
  then show ?thesis using lookup_snoc[of t V es b] by (cases "map_of es b") simp_all
qed

lemma writefile_tree_Inr:
  "writefile_tree t p b = Inr t' \<Longrightarrow> alter (write_file b) t (resolve p) = Inr t'"
  by (auto simp: writefile_tree_def split: if_splits sum.splits errno.splits)

lemma rename_tree_Inr:
  "rename_tree t old new = Inr t' \<Longrightarrow> rename_at t (resolve old) (resolve new) = Inr t'"
  by (simp add: rename_tree_def split: if_splits)

lemma rename_at_file:
  assumes "lookup t old = Inr (File b)" "rename_at t old new = Inr t'"
    and "\<not> prefix old new" "\<not> prefix new old"
  shows "lookup t' new = Inr (File b) \<and> lookup t' old = Inl ENOENT"
proof -
  have ne: "old \<noteq> new" "old \<noteq> []" using assms(3) by auto
  obtain t1 where 1: "alter (link (File b)) t new = Inr t1" and 2: "alter unlink t1 old = Inr t'"
    using assms(1,2,3) ne
    by (auto simp: rename_at_def split: sum.splits node.splits if_splits)
  have "lookup t' new = lookup t1 new" by (rule lookup_alter_other[OF 2 assms(4,3)])
  then show ?thesis using lookup_link[OF 1] lookup_unlink[OF 2] by simp
qed

lemma Write_locked_tree:
  assumes "Write_locked m c r v w = (res, w')"
    and "d = Join [dir (driver w), c]" and "f = Join [d, r @ ''.json'']"
  shows "(res \<noteq> None \<and> tree w' = tree w) \<or>
         (\<exists>t1. mkdirall_tree (tree w) d = Inr t1 \<and>
            ((res \<noteq> None \<and> tree w' = t1) \<or>
             (\<exists>b t2. m v = Inr b \<and> writefile_tree t1 (f @ ''.tmp'') (b @ [CHR 0x0A]) = Inr t2 \<and>
                ((res \<noteq> None \<and> tree w' = t2) \<or>
                 (res = None \<and> rename_tree t2 (f @ ''.tmp'') f = Inr (tree w'))))))"
  using assms
  by (auto simp: Write_locked_def Let_def os_MkdirAll_def ioutil_WriteFile_def os_Rename_def log_def
           split: sum.splits option.splits prod.splits)

lemma Write_unfold:
  assumes "c \<noteq> []" "r \<noteq> []" "Write m c r v w = (res, w')"
  shows "\<exists>w0 w1. tree w0 = tree w \<and> dir (driver w0) = dir (driver w)
           \<and> Write_locked m c r v w0 = (res, w1)
           \<and> tree w' = tree w1 \<and> dir (driver w') = dir (driver w)"
proof -
  obtain mu w0 where g: "getOrCreateMutex c w = (mu, w0)" by (cases "getOrCreateMutex c w")
  then have 0: "tree w0 = tree w" "dir (driver w0) = dir (driver w)"
    by (auto simp: getOrCreateMutex_def split: option.splits)
  obtain r1 w1 where b: "Write_locked m c r v (log (Lock mu) w0) = (r1, w1)"
    by (cases "Write_locked m c r v (log (Lock mu) w0)")
  have d: "driver w1 = driver w0" using driver_Write_locked[of m c r v "log (Lock mu) w0"] b by simp
  have "res = r1" "w' = log (Unlock mu) w1" using assms g b by (simp_all add: Write_def)
  then show ?thesis using 0 b d
    by (intro exI[of _ "log (Lock mu) w0"] exI[of _ w1]) (simp add: log_def)
qed

text \<open>What a successful \<^verbatim>\<open>Write\<close> leaves in the tree: the document at the final path, and
  nothing at the temporary path.\<close>

lemma Write_success:
  assumes "c \<noteq> []" "r \<noteq> []" "Write m c r v w = (None, w')"
    and "f = Join [Join [dir (driver w), c], r @ ''.json'']"
  shows "\<exists>b. m v = Inr b \<and> lookup (tree w') (resolve f) = Inr (File (b @ [CHR 0x0A]))
           \<and> lookup (tree w') (resolve (f @ ''.tmp'')) = Inl ENOENT"
proof -
  let ?root = "dir (driver w)"
  let ?V = "foldl (cstep True) (resolve (base ?root c)) (butlast (splitp r))"
  let ?n = "last (splitp r)"
  obtain w0 w1 where 0: "tree w0 = tree w" "dir (driver w0) = ?root"
    and l: "Write_locked m c r v w0 = (None, w1)" and 1: "tree w' = tree w1"
    using Write_unfold[OF assms(1,2,3)] by blast
  have f: "f = Join [Join [dir (driver w0), c], r @ ''.json'']" using assms(4) 0 by simp
  from Write_locked_tree[OF l refl f] obtain t1 b t2 where
    b: "m v = Inr b" and wf: "writefile_tree t1 (f @ ''.tmp'') (b @ [CHR 0x0A]) = Inr t2"
    and rn: "rename_tree t2 (f @ ''.tmp'') f = Inr (tree w1)"
    by auto
  have rf: "resolve f = ?V @ [?n @ ''.json'']" using assms(4) by (simp add: resolve_final[OF assms(1)])
  have rt: "resolve (f @ ''.tmp'') = ?V @ [?n @ ''.json.tmp'']"
    using assms(4) by (simp add: resolve_temp[OF assms(1)])
  have lt: "lookup t2 (resolve (f @ ''.tmp'')) = Inr (File (b @ [CHR 0x0A]))"
    by (rule lookup_write_file[OF writefile_tree_Inr[OF wf]])
  have "lookup (tree w1) (resolve f) = Inr (File (b @ [CHR 0x0A]))
        \<and> lookup (tree w1) (resolve (f @ ''.tmp'')) = Inl ENOENT"
    by (rule rename_at_file[OF lt rename_tree_Inr[OF rn]]) (simp_all add: rf rt prefix_def)
  then show ?thesis using b 1 by simp
qed

lemma Read_found:
  assumes "c \<noteq> []" "r \<noteq> []" "found (tree w) (Join [dir (driver w), c, r])"
  shows "fst (Read u c r w)
          = (case readfile_tree (tree w) (Join [dir (driver w), c, r] @ ''.json'') of
               Inl e \<Rightarrow> Inl (PathError e)
             | Inr b \<Rightarrow> u b)"
  using assms
  by (auto simp: Read_def Let_def stat_result found_def ioutil_ReadFile_def log_def IsNotExist_def
           split: sum.splits)

text \<open>\<^verbatim>\<open>Read\<close> on a tree that holds a regular file at the final path of the resource.\<close>

lemma Read_final:
  assumes "c \<noteq> []" "normal (last (splitp r))"
    and "lookup (tree w) (resolve (Join [Join [dir (driver w), c], r @ ''.json''])) = Inr (File x)"
  shows "fst (Read u c r w) = u x"
proof -
  let ?root = "dir (driver w)"
  let ?p = "Join [?root, c, r]"
  let ?V = "foldl (cstep True) (resolve (base ?root c)) (butlast (splitp r))"
  let ?n = "last (splitp r)"
  have r: "r \<noteq> []" using assms(2) by (auto simp: normal_def)
  have p: "?p \<noteq> []" using assms(1) by (simp add: Join3_base)
  have rj: "resolve (?p @ ''.json'') = ?V @ [?n @ ''.json'']"
    using resolve_record_json(1)[OF assms(1,2)] resolve_final[OF assms(1)] by simp
  have rp: "resolve ?p = ?V @ [?n]" by (rule resolve_record_json(2)[OF assms(1,2)])
  have lj: "lookup (tree w) (?V @ [?n @ ''.json'']) = Inr (File x)"
    using assms(3) resolve_final[OF assms(1), of ?root r] by simp
  have rd: "readfile_tree (tree w) (?p @ ''.json'') = Inr x"
    using lj rj by (simp add: readfile_tree_def)
  have sj: "stat_tree (tree w) (?p @ ''.json'') = Inr ModeRegular"
    using lj rj by (simp add: stat_tree_def)
  have "lookup (tree w) (?V @ [?n]) = Inl ENOENT \<or> (\<exists>y. lookup (tree w) (?V @ [?n]) = Inr y)"
    by (rule lookup_sibling[OF lj])
  then have "found (tree w) ?p"
    using p rp sj by (auto simp: found_def stat_tree_def IsNotExist_def split: node.splits)
  from Read_found[OF assms(1) r this] show ?thesis using rd by simp
qed

section \<open>The round trip\<close>

text \<open>
  Claim C1, amended.  Let the collection name be non-empty and let the last element of
  the resource name, split at the separators, be an ordinary name (not empty, not
  \<^verbatim>\<open>.\<close> and not \<^verbatim>\<open>..\<close>).  If the serializer encodes the document and decodes the
  encoding followed by a newline to the same document, and \<^verbatim>\<open>Write\<close> succeeds, then
  \<^verbatim>\<open>Read\<close> of the same names, on any later state with the same tree and the same root,
  returns the document.
\<close>

theorem C1_write_read_round_trip:
  fixes marshal :: "'v \<Rightarrow> error + bytes" and unmarshal :: "bytes \<Rightarrow> error + 'v"
  assumes "collection \<noteq> []" and "normal (last (splitp resource))"
    and "marshal doc = Inr b" and "unmarshal (b @ [CHR 0x0A]) = Inr doc"
    and "Write marshal collection resource doc w = (None, w')"
    and "tree w'' = tree w'" and "dir (driver w'') = dir (driver w')"
  shows "fst (Read unmarshal collection resource w'') = Inr doc"
proof -
  have r: "resource \<noteq> []" using assms(2) by (auto simp: normal_def)
  have d: "dir (driver w') = dir (driver w)"
    using Write_unfold[OF assms(1) r assms(5)] by blast
  from Write_success[OF assms(1) r assms(5) refl] assms(3)
  have "lookup (tree w') (resolve (Join [Join [dir (driver w), collection], resource @ ''.json'']))
          = Inr (File (b @ [CHR 0x0A]))"
    by auto
  then have "lookup (tree w'') (resolve (Join [Join [dir (driver w''), collection], resource @ ''.json'']))
          = Inr (File (b @ [CHR 0x0A]))"
    using assms(6,7) d by simp
  from Read_final[OF assms(1,2) this, of unmarshal] show ?thesis using assms(4) by simp
qed

theorem C1_write_read_round_trip_witness:
  "''users'' \<noteq> [] \<and> normal (last (splitp ''alice''))
   \<and> ex_marshal ''hello'' = Inr ''<hello>''
   \<and> ex_unmarshal (''<hello>'' @ [CHR 0x0A]) = Inr ''hello''
   \<and> fst (Write ex_marshal ''users'' ''alice'' ''hello'' ex_db) = None
   \<and> fst (Read ex_unmarshal ''users'' ''alice'' ex_users) = Inr ''hello''"
proof -
  have h1: "''users'' \<noteq> []" by simp
  have h2: "normal (last (splitp ''alice''))" by code_simp
  have h3: "ex_marshal ''hello'' = Inr ''<hello>''" by code_simp
  have h4: "ex_unmarshal (''<hello>'' @ [CHR 0x0A]) = Inr ''hello''" by code_simp
  have h5: "fst (Write ex_marshal ''users'' ''alice'' ''hello'' ex_db) = None" by code_simp
  have h6: "Write ex_marshal ''users'' ''alice'' ''hello'' ex_db = (None, ex_users)"
    using h5 by (simp add: ex_users_def prod_eq_iff)
  have h7: "tree ex_users = tree ex_users" and h8: "dir (driver ex_users) = dir (driver ex_users)"
    by simp_all
  show ?thesis
    using C1_write_read_round_trip[where marshal = ex_marshal and unmarshal = ex_unmarshal
            and doc = "''hello''" and b = "''<hello>''", OF h1 h2 h3 h4 h6 h7 h8]
          h1 h2 h3 h4 h5 by simp
qed

text \<open>
  The resource name \<^verbatim>\<open>.\<close>: \<^verbatim>\<open>Write\<close> succeeds and stores the document in
  \<^verbatim>\<open>db/users/..json\<close>, while \<^verbatim>\<open>Read\<close> joins the names to \<^verbatim>\<open>db/users\<close>, finds that
  directory, and fails on reading \<^verbatim>\<open>db/users.json\<close>.
\<close>

theorem C1_counterexample:
  "fst (Write ex_marshal ''users'' ''.'' ''hello'' ex_db) = None
   \<and> ex_marshal ''hello'' = Inr ''<hello>''
   \<and> ex_unmarshal (''<hello>'' @ [CHR 0x0A]) = Inr ''hello''
   \<and> lookup (tree (snd (Write ex_marshal ''users'' ''.'' ''hello'' ex_db))) [''db'', ''users'', ''..json'']
       = Inr (File ''<hello>\<newline>'')
   \<and> Join [''db'', ''users'', ''.''] @ ''.json'' = ''db/users.json''
   \<and> fst (Read ex_unmarshal ''users'' ''.'' (snd (Write ex_marshal ''users'' ''.'' ''hello'' ex_db)))
       = Inl (PathError ENOENT)"
  by code_simp

section \<open>Last write wins\<close>

text \<open>
  Claim C8, amended.  Let the collection name be non-empty and the last element of the
  resource name an ordinary name.  If two \<^verbatim>\<open>Write\<close> calls to the same names succeed one
  after the other and the serializer decodes the second document's encoding, \<^verbatim>\<open>Read\<close>
  returns the second document; and a successful \<^verbatim>\<open>Write\<close> leaves nothing at its
  temporary path: \<^verbatim>\<open>Stat\<close> of that path answers not-exist after the first and after
  the second call.
\<close>

theorem C8_last_write_wins:
  fixes marshal :: "'v \<Rightarrow> error + bytes" and unmarshal :: "bytes \<Rightarrow> error + 'v"
  assumes "collection \<noteq> []" and "normal (last (splitp resource))"
    and "marshal doc = Inr b" and "unmarshal (b @ [CHR 0x0A]) = Inr doc"
    and "Write marshal collection resource old w = (None, wa)"
    and "Write marshal collection resource doc wa = (None, wb)"
    and "tempPath = Join [Join [dir (driver w), collection], resource @ ''.json''] @ ''.tmp''"
  shows "fst (Read unmarshal collection resource wb) = Inr doc
         \<and> stat_tree (tree wa) tempPath = Inl ENOENT
         \<and> stat_tree (tree wb) tempPath = Inl ENOENT"
proof -
  let ?f = "Join [Join [dir (driver w), collection], resource @ ''.json'']"
  have r: "resource \<noteq> []" using assms(2) by (auto simp: normal_def)
  have d1: "dir (driver wa) = dir (driver w)"
    using Write_unfold[OF assms(1) r assms(5)] by blast
  have d2: "dir (driver wb) = dir (driver w)"
    using Write_unfold[OF assms(1) r assms(6)] d1 by auto
  have f1: "?f = Join [Join [dir (driver wa), collection], resource @ ''.json'']"
    using d1 by simp
  from Write_success[OF assms(1) r assms(5) refl]
  have t1: "lookup (tree wa) (resolve (?f @ ''.tmp'')) = Inl ENOENT" by auto
  from Write_success[OF assms(1) r assms(6) f1] assms(3)
  have l2: "lookup (tree wb) (resolve ?f) = Inr (File (b @ [CHR 0x0A]))"
    and t2: "lookup (tree wb) (resolve (?f @ ''.tmp'')) = Inl ENOENT"
    by auto
  have "lookup (tree wb) (resolve (Join [Join [dir (driver wb), collection], resource @ ''.json'']))
          = Inr (File (b @ [CHR 0x0A]))"
    using l2 d2 by simp
  from Read_final[OF assms(1,2) this, of unmarshal]
  have "fst (Read unmarshal collection resource wb) = Inr doc" using assms(4) by simp
  then show ?thesis using t1 t2 assms(7) by (simp add: stat_tree_def)
qed

theorem C8_last_write_wins_witness:
  "''users'' \<noteq> [] \<and> normal (last (splitp ''alice''))
   \<and> ex_marshal ''bye'' = Inr ''<bye>''
   \<and> ex_unmarshal (''<bye>'' @ [CHR 0x0A]) = Inr ''bye''
   \<and> fst (Write ex_marshal ''users'' ''alice'' ''hello'' ex_db) = None
   \<and> fst (Write ex_marshal ''users'' ''alice'' ''bye'' ex_users) = None
   \<and> fst (Read ex_unmarshal ''users'' ''alice''
            (snd (Write ex_marshal ''users'' ''alice'' ''bye'' ex_users))) = Inr ''bye''
   \<and> stat_tree (tree (snd (Write ex_marshal ''users'' ''alice'' ''bye'' ex_users)))
        ''db/users/alice.json.tmp'' = Inl ENOENT"
proof -
  have h1: "''users'' \<noteq> []" by simp
  have h2: "normal (last (splitp ''alice''))" by code_simp
  have h3: "ex_marshal ''bye'' = Inr ''<bye>''" by code_simp
  have h4: "ex_unmarshal (''<bye>'' @ [CHR 0x0A]) = Inr ''bye''" by code_simp
  have h5: "fst (Write ex_marshal ''users'' ''alice'' ''hello'' ex_db) = None" by code_simp
  have h6: "Write ex_marshal ''users'' ''alice'' ''hello'' ex_db = (None, ex_users)"
    using h5 by (simp add: ex_users_def prod_eq_iff)
  have h7: "fst (Write ex_marshal ''users'' ''alice'' ''bye'' ex_users) = None" by code_simp
  have h8: "Write ex_marshal ''users'' ''alice'' ''bye'' ex_users
              = (None, snd (Write ex_marshal ''users'' ''alice'' ''bye'' ex_users))"
    using h7 by (simp add: prod_eq_iff)
  have h9: "Join [Join [dir (driver ex_db), ''users''], ''alice'' @ ''.json''] @ ''.tmp''
              = ''db/users/alice.json.tmp''" by code_simp
  show ?thesis
    using C8_last_write_wins[where marshal = ex_marshal and unmarshal = ex_unmarshal
            and doc = "''bye''" and b = "''<bye>''", OF h1 h2 h3 h4 h6 h8 h9[symmetric]]
          h1 h2 h3 h4 h5 h7 by simp
qed

text \<open>
  The resource name \<^verbatim>\<open>.\<close> again: both calls of \<^verbatim>\<open>Write\<close> succeed, and \<^verbatim>\<open>Read\<close> fails
  with the not-exist error.
\<close>

theorem C8_counterexample:
  "fst (Write ex_marshal ''users'' ''.'' ''hello'' ex_db) = None
   \<and> fst (Write ex_marshal ''users'' ''.'' ''bye''
            (snd (Write ex_marshal ''users'' ''.'' ''hello'' ex_db))) = None
   \<and> ex_unmarshal (''<bye>'' @ [CHR 0x0A]) = Inr ''bye''
   \<and> fst (Read ex_unmarshal ''users'' ''.''
            (snd (Write ex_marshal ''users'' ''.'' ''bye''
                    (snd (Write ex_marshal ''users'' ''.'' ''hello'' ex_db)))))
       = Inl (PathError ENOENT)"
  by code_simp

section \<open>A failed write\<close>

lemma mkdirall_tree_other:
  assumes "mkdirall_tree t d = Inr t1" "\<not> prefix q (resolve d)"
  shows "lookup t1 q = lookup t q"
proof -
  have "mkdir_all t (resolve d) = Inr t1" using assms(1) by (simp add: mkdirall_tree_def split: if_splits)
  then show ?thesis using assms(2) by (rule lookup_mkdir_all_other)
qed

text \<open>
  Claim C4, amended.  Let the names be non-empty and let the resource name have no
  element \<^verbatim>\<open>..\<close>, so that the final path lies inside the collection directory.  A
  \<^verbatim>\<open>Write\<close> that returns an error leaves the final path as it was: what the tree holds
  there, or the error of looking it up, is the same before and after.  A \<^verbatim>\<open>Write\<close> that
  succeeds reaches a tree in which the final path is still as it was, and its last
  step, the \<^verbatim>\<open>Rename\<close>, leads from that tree to the result.
\<close>

theorem C4_failed_write_keeps_final_path:
  fixes marshal :: "'v \<Rightarrow> error + bytes"
  assumes "collection \<noteq> []" and "resource \<noteq> []" and "''..'' \<notin> set (splitp resource)"
    and "Write marshal collection resource v w = (res, w')"
    and "finalPath = Join [Join [dir (driver w), collection], resource @ ''.json'']"
  shows "(res \<noteq> None \<longrightarrow> lookup (tree w') (resolve finalPath) = lookup (tree w) (resolve finalPath))
       \<and> (res = None \<longrightarrow>
            (\<exists>t. lookup t (resolve finalPath) = lookup (tree w) (resolve finalPath)
                 \<and> rename_tree t (finalPath @ ''.tmp'') finalPath = Inr (tree w')))"
proof -
  let ?root = "dir (driver w)"
  let ?d = "Join [?root, collection]"
  let ?V = "foldl (cstep True) (resolve (base ?root collection)) (butlast (splitp resource))"
  let ?n = "last (splitp resource)"
  obtain w0 w1 where 0: "tree w0 = tree w" "dir (driver w0) = ?root"
    and l: "Write_locked marshal collection resource v w0 = (res, w1)" and 1: "tree w' = tree w1"
    using Write_unfold[OF assms(1,2,4)] by blast
  have d: "?d = Join [dir (driver w0), collection]" using 0 by simp
  have f: "finalPath = Join [?d, resource @ ''.json'']" using assms(5) by simp
  have rf: "resolve finalPath = ?V @ [?n @ ''.json'']"
    using assms(5) by (simp add: resolve_final[OF assms(1)])
  have rt: "resolve (finalPath @ ''.tmp'') = ?V @ [?n @ ''.json.tmp'']"
    using assms(5) by (simp add: resolve_temp[OF assms(1)])
  have np: "\<not> prefix (resolve finalPath) (resolve ?d)"
    using final_below_dir[OF assms(1,3)] assms(5) by simp
  have mk: "lookup t1 (resolve finalPath) = lookup (tree w) (resolve finalPath)"
    if "mkdirall_tree (tree w0) ?d = Inr t1" for t1
    using mkdirall_tree_other[OF that np] 0 by simp
  have wr: "lookup t2 (resolve finalPath) = lookup t1 (resolve finalPath)"
    if "writefile_tree t1 (finalPath @ ''.tmp'') x = Inr t2" for t1 t2 x
    by (rule lookup_alter_other[OF writefile_tree_Inr[OF that]]) (simp_all add: rf rt prefix_def)
  from Write_locked_tree[OF l d f]
  consider "res \<noteq> None" "tree w1 = tree w0"
    | t1 where "mkdirall_tree (tree w0) ?d = Inr t1" "res \<noteq> None" "tree w1 = t1"
    | t1 b t2 where "mkdirall_tree (tree w0) ?d = Inr t1"
        "writefile_tree t1 (finalPath @ ''.tmp'') (b @ [CHR 0x0A]) = Inr t2"
        "res \<noteq> None" "tree w1 = t2"
    | t1 b t2 where "mkdirall_tree (tree w0) ?d = Inr t1"
        "writefile_tree t1 (finalPath @ ''.tmp'') (b @ [CHR 0x0A]) = Inr t2"
        "res = None" "rename_tree t2 (finalPath @ ''.tmp'') finalPath = Inr (tree w1)"
    by blast
  then show ?thesis
  proof cases
    case 1 then show ?thesis using 0 \<open>tree w' = tree w1\<close> by auto
  next
    case 2 then show ?thesis using mk[OF 2(1)] \<open>tree w' = tree w1\<close> by auto
  next
    case 3 then show ?thesis using mk[OF 3(1)] wr[OF 3(2)] \<open>tree w' = tree w1\<close> by auto
  next
    case 4
    have "lookup t2 (resolve finalPath) = lookup (tree w) (resolve finalPath)"
      using mk[OF 4(1)] wr[OF 4(2)] by simp
    then show ?thesis using 4(3,4) \<open>tree w' = tree w1\<close> by auto
  qed
qed

theorem C4_failed_write_keeps_final_path_witness:
  "''users'' \<noteq> [] \<and> ''alice'' \<noteq> [] \<and> ''..'' \<notin> set (splitp ''alice'')
   \<and> fst (Write ex_reject ''users'' ''alice'' ''bye'' ex_users) = Some CodecError
   \<and> ''db/users/alice.json'' = Join [Join [dir (driver ex_users), ''users''], ''alice'' @ ''.json'']
   \<and> lookup (tree ex_users) (resolve ''db/users/alice.json'') = Inr (File ''<hello>\<newline>'')
   \<and> lookup (tree (snd (Write ex_reject ''users'' ''alice'' ''bye'' ex_users)))
        (resolve ''db/users/alice.json'') = Inr (File ''<hello>\<newline>'')"
proof -
  have h1: "''users'' \<noteq> []" and h2: "''alice'' \<noteq> []" by simp_all
  have h3: "''..'' \<notin> set (splitp ''alice'')" by code_simp
  have h4: "fst (Write ex_reject ''users'' ''alice'' ''bye'' ex_users) = Some CodecError"
    by code_simp
  have h5: "Write ex_reject ''users'' ''alice'' ''bye'' ex_users
              = (Some CodecError, snd (Write ex_reject ''users'' ''alice'' ''bye'' ex_users))"
    using h4 by (simp add: prod_eq_iff)
  have h6: "Join [Join [dir (driver ex_users), ''users''], ''alice'' @ ''.json''] = ''db/users/alice.json''"
    by code_simp
  have h7: "lookup (tree ex_users) (resolve ''db/users/alice.json'') = Inr (File ''<hello>\<newline>'')"
    by code_simp
  show ?thesis
    using C4_failed_write_keeps_final_path[where marshal = ex_reject, OF h1 h2 h3 h5 h6[symmetric]]
          h1 h2 h3 h4 h6 h7 by simp
qed

text \<open>
  The collection \<^verbatim>\<open>x.json/y\<close> and the resource \<^verbatim>\<open>../../x\<close>: the final path is
  \<^verbatim>\<open>db/x.json\<close>, an ancestor of the collection directory \<^verbatim>\<open>db/x.json/y\<close>.  The
  serializer rejects the document and \<^verbatim>\<open>Write\<close> returns its error, but \<^verbatim>\<open>MkdirAll\<close> has
  already created a directory at the final path, where nothing was before.
\<close>

theorem C4_counterexample:
  "fst (Write ex_reject ''x.json/y'' ''../../x'' ''hello'' ex_db) = Some CodecError
   \<and> Join [Join [dir (driver ex_db), ''x.json/y''], ''../../x'' @ ''.json''] = ''db/x.json''
   \<and> lookup (tree ex_db) (resolve ''db/x.json'') = Inl ENOENT
   \<and> lookup (tree (snd (Write ex_reject ''x.json/y'' ''../../x'' ''hello'' ex_db)))
        (resolve ''db/x.json'') = Inr (Dir [(''y'', Dir [])])
   \<and> trace (snd (Write ex_reject ''x.json/y'' ''../../x'' ''hello'' ex_db))
       = trace ex_db @ [Lock 0, MkdirAll ''db/x.json/y'', Unlock 0]"
  by code_simp

section \<open>Deleting\<close>

lemma endsWithDot_last:
  assumes "endsWithDot p" shows "last (splitp p) = ''.''"
proof (cases "p = ''.''")
  case True then show ?thesis by simp
next
  case False
  then have l: "2 \<le> length p" and a: "last p = CHR ''.''" and b: "last (butlast p) = CHR ''/''"
    using assms by (auto simp: endsWithDot_def)
  have "p \<noteq> []" "butlast p \<noteq> []" using l by (auto simp: butlast_conv_take)
  then have "p = butlast (butlast p) @ [last (butlast p)] @ [last p]"
    by (metis append_butlast_last_id append_assoc)
  then have "p = butlast (butlast p) @ CHR ''/'' # ''.''" using a b by simp
  then have "splitp p = splitp (butlast (butlast p)) @ splitp ''.''"
    using splitp_append_sep[of "butlast (butlast p)" "''.''"] by simp
  then show ?thesis by simp
qed

lemma foldl_dotdots: "foldl (cstep True) [] (replicate k ''..'') = []"
  by (induction k) (simp_all add: cstep_def)

lemma clean_resolve_last:
  assumes "resolve (Clean q) \<noteq> []"
  shows "\<not> endsWithDot (Clean q)" and "normal (last (splitp (Clean q)))"
proof -
  have q: "q \<noteq> []" using assms by (auto simp: Clean_def resolve_def)
  let ?T = "stack q"
  have c: "canon ?T" by (rule stack_canon)
  have n: "\<forall>e\<in>set ?T. CHR ''/'' \<notin> set e" using stack_nosep by blast
  have sp: "splitp (Clean q) =
           (if rooted q then (if ?T = [] then [[], []] else [] # ?T)
            else (if ?T = [] then [''.''] else ?T))"
    using splitp_render[OF c n] q by (simp add: Clean_stack)
  have T: "?T \<noteq> []" using assms sp by (auto simp: resolve_def split: if_splits)
  have r: "resolve (Clean q) = foldl (cstep True) [] ?T"
    using sp T by (auto simp: resolve_def)
  obtain k ns where kn: "?T = replicate k ''..'' @ ns" and ns: "\<forall>e\<in>set ns. normal e"
    using c unfolding canon_def by blast
  have "resolve (Clean q) = ns"
    using r by (simp only: kn foldl_append foldl_dotdots) (simp add: foldl_normal[OF ns])
  then have "ns \<noteq> []" using assms by simp
  then have "normal (last ?T)" using kn ns by simp
  moreover have "last (splitp (Clean q)) = last ?T" using sp T by (simp del: splitp_not_Nil)
  ultimately show *: "normal (last (splitp (Clean q)))" by simp
  show "\<not> endsWithDot (Clean q)"
  proof
    assume "endsWithDot (Clean q)"
    then have "last (splitp (Clean q)) = ''.''" by (rule endsWithDot_last)
    then show False using * by (simp add: normal_def)
  qed
qed

lemma lookup_append_error: "lookup t ks = Inl e \<Longrightarrow> lookup t (ks @ qs) = Inl e"
proof (induction t ks rule: lookup.induct)
  case (1 t) then show ?case by simp
next
  case (2 b k ks) then show ?case by simp
next
  case (3 ds k ks) then show ?case by (cases "map_of ds k") simp_all
qed

lemma remove_all_present:
  assumes "p \<noteq> []" "\<not> endsWithDot p" "resolve p \<noteq> []" "lookup t (resolve p) = Inr n"
  shows "\<exists>t'. remove_all t p = Inr t' \<and> alter unlink t (resolve p) = Inr t'"
proof -
  obtain t' where "alter unlink t (resolve p) = Inr t'"
    using unlink_exists[OF assms(4,3)] by blast
  then show ?thesis using assms(1,2) by (simp add: remove_all_def)
qed

lemma remove_all_absent:
  assumes "p \<noteq> []" "\<not> endsWithDot p" "lookup t (resolve p) = Inl ENOENT"
  shows "remove_all t p = Inr t"
  using unlink_absent[OF assms(3)] assms(1,2) by (auto simp: remove_all_def)

lemma Delete_unfold:
  assumes "Delete c r w = (res, w')"
  shows "\<exists>w0 w1. tree w0 = tree w \<and> dir (driver w0) = dir (driver w)
           \<and> Delete_locked (Join [c, r]) w0 = (res, w1) \<and> tree w' = tree w1"
proof -
  obtain mu w0 where g: "getOrCreateMutex c w = (mu, w0)" by (cases "getOrCreateMutex c w")
  then have 0: "tree w0 = tree w" "dir (driver w0) = dir (driver w)"
    by (auto simp: getOrCreateMutex_def split: option.splits)
  obtain r1 w1 where b: "Delete_locked (Join [c, r]) (log (Lock mu) w0) = (r1, w1)"
    by (cases "Delete_locked (Join [c, r]) (log (Lock mu) w0)")
  have "res = r1" "w' = log (Unlock mu) w1" using assms g b by (simp_all add: Delete_def Let_def)
  then show ?thesis using 0 b
    by (intro exI[of _ "log (Lock mu) w0"] exI[of _ w1]) (simp add: log_def)
qed

text \<open>The body of \<^verbatim>\<open>Delete\<close>, by what \<^verbatim>\<open>stat\<close> finds.\<close>

lemma Delete_locked_not_found:
  assumes "Delete_locked path w = (res, w')" "d = Join [dir (driver w), path]"
    and "\<not> found (tree w) d"
  shows "res = Some (Errorf (''unable to find file or directory named '' @ path @ [CHR 0x0A]))
         \<and> tree w' = tree w"
  using assms
  by (auto simp: Delete_locked_def Let_def stat_result found_def log_def split: sum.splits if_splits)

lemma Delete_locked_bare_dir:
  assumes "Delete_locked path w = (res, w')" "d = Join [dir (driver w), path]"
    and "stat_tree (tree w) d = Inr ModeDir"
  shows "case remove_all (tree w) d of
           Inl e \<Rightarrow> res = Some (PathError e) \<and> tree w' = tree w
         | Inr t' \<Rightarrow> res = None \<and> tree w' = t'"
  using assms
  by (auto simp: Delete_locked_def Let_def stat_result os_RemoveAll_def IsDir_def log_def
           split: sum.splits)

lemma Delete_locked_suffixed_dir:
  assumes "Delete_locked path w = (res, w')" "d = Join [dir (driver w), path]"
    and "stat_tree (tree w) d = Inl ENOENT" "stat_tree (tree w) (d @ ''.json'') = Inr ModeDir"
  shows "case remove_all (tree w) d of
           Inl e \<Rightarrow> res = Some (PathError e) \<and> tree w' = tree w
         | Inr t' \<Rightarrow> res = None \<and> tree w' = t'"
  using assms
  by (auto simp: Delete_locked_def Let_def stat_result os_RemoveAll_def IsDir_def log_def
                 IsNotExist_def split: sum.splits)

lemma Delete_locked_file:
  assumes "Delete_locked path w = (res, w')" "d = Join [dir (driver w), path]"
    and "stat_tree (tree w) d = Inr ModeRegular
         \<or> (stat_tree (tree w) d = Inl ENOENT \<and> stat_tree (tree w) (d @ ''.json'') = Inr ModeRegular)"
  shows "case remove_all (tree w) (d @ ''.json'') of
           Inl e \<Rightarrow> res = Some (PathError e) \<and> tree w' = tree w
         | Inr t' \<Rightarrow> res = None \<and> tree w' = t'"
  using assms
  by (auto simp: Delete_locked_def Let_def stat_result os_RemoveAll_def IsDir_def IsRegular_def
                 log_def IsNotExist_def split: sum.splits)

lemma Join_root_clean:
  assumes "root \<noteq> []" "d = Join [root, path]"
  shows "d = Clean (root @ CHR ''/'' # path)" and "d \<noteq> []"
  using assms by (simp_all add: Join2)

lemma not_endsWithDot_json [simp]: "\<not> endsWithDot (d @ ''.json'')"
  by (simp add: endsWithDot_def)

lemma Delete_pair: "Delete c r w = (fst (Delete c r w), snd (Delete c r w))"
  by simp

lemma Delete_bare_dir:
  assumes "dir (driver w) \<noteq> []" "d = Join [dir (driver w), Join [c, r]]"
    and "stat_tree (tree w) d = Inr ModeDir" "resolve d \<noteq> []"
  shows "fst (Delete c r w) = None"
    and "lookup (tree (snd (Delete c r w))) (resolve d @ qs) = Inl ENOENT"
    and "\<not> prefix q (resolve d) \<Longrightarrow> \<not> prefix (resolve d) q \<Longrightarrow>
         lookup (tree (snd (Delete c r w))) q = lookup (tree w) q"
proof -
  let ?res = "fst (Delete c r w)" and ?w' = "snd (Delete c r w)"
  obtain w0 w1 where 0: "tree w0 = tree w" "dir (driver w0) = dir (driver w)"
    and l: "Delete_locked (Join [c, r]) w0 = (?res, w1)" and 1: "tree ?w' = tree w1"
    using Delete_unfold[OF Delete_pair] by blast
  have d0: "d = Join [dir (driver w0), Join [c, r]]" using assms(2) 0 by simp
  have dc: "d = Clean (dir (driver w) @ CHR ''/'' # Join [c, r])" and dn: "d \<noteq> []"
    using Join_root_clean[OF assms(1,2)] by simp_all
  have ned: "\<not> endsWithDot d" using clean_resolve_last(1)[of "dir (driver w) @ CHR ''/'' # Join [c, r]"] assms(4) dc by simp
  obtain n where n: "lookup (tree w) (resolve d) = Inr n"
    using assms(3) dn by (auto simp: stat_tree_def split: sum.splits)
  obtain t' where rm: "remove_all (tree w) d = Inr t'" and al: "alter unlink (tree w) (resolve d) = Inr t'"
    using remove_all_present[OF dn ned assms(4) n] by blast
  have s: "stat_tree (tree w0) d = Inr ModeDir" using assms(3) 0 by simp
  from Delete_locked_bare_dir[OF l d0 s] have r: "?res = None" "tree w1 = t'"
    using rm 0 by simp_all
  show "?res = None" by (rule r(1))
  have "lookup t' (resolve d) = Inl ENOENT" by (rule lookup_unlink[OF al])
  then show "lookup (tree ?w') (resolve d @ qs) = Inl ENOENT"
    using 1 r(2) by (simp add: lookup_append_error)
  show "lookup (tree ?w') q = lookup (tree w) q"
    if "\<not> prefix q (resolve d)" "\<not> prefix (resolve d) q"
    using lookup_alter_other[OF al that] 1 r(2) by simp
qed

lemma Delete_suffixed_dir:
  assumes "dir (driver w) \<noteq> []" "d = Join [dir (driver w), Join [c, r]]"
    and "stat_tree (tree w) d = Inl ENOENT" "stat_tree (tree w) (d @ ''.json'') = Inr ModeDir"
  shows "fst (Delete c r w) = None \<and> tree (snd (Delete c r w)) = tree w"
proof -
  let ?res = "fst (Delete c r w)" and ?w' = "snd (Delete c r w)"
  obtain w0 w1 where 0: "tree w0 = tree w" "dir (driver w0) = dir (driver w)"
    and l: "Delete_locked (Join [c, r]) w0 = (?res, w1)" and 1: "tree ?w' = tree w1"
    using Delete_unfold[OF Delete_pair] by blast
  have d0: "d = Join [dir (driver w0), Join [c, r]]" using assms(2) 0 by simp
  have dc: "d = Clean (dir (driver w) @ CHR ''/'' # Join [c, r])" and dn: "d \<noteq> []"
    using Join_root_clean[OF assms(1,2)] by simp_all
  have lk: "lookup (tree w) (resolve d) = Inl ENOENT"
    using assms(3) dn by (auto simp: stat_tree_def split: sum.splits node.splits)
  then have "resolve d \<noteq> []" by auto
  then have ned: "\<not> endsWithDot d"
    using clean_resolve_last(1)[of "dir (driver w) @ CHR ''/'' # Join [c, r]"] dc by simp
  have rm: "remove_all (tree w) d = Inr (tree w)" by (rule remove_all_absent[OF dn ned lk])
  have s: "stat_tree (tree w0) d = Inl ENOENT" "stat_tree (tree w0) (d @ ''.json'') = Inr ModeDir"
    using assms(3,4) 0 by simp_all
  from Delete_locked_suffixed_dir[OF l d0 s] show ?thesis using rm 0 1 by simp
qed

lemma Delete_file:
  assumes "dir (driver w) \<noteq> []" "d = Join [dir (driver w), Join [c, r]]"
    and "stat_tree (tree w) d = Inr ModeRegular
         \<or> (stat_tree (tree w) d = Inl ENOENT \<and> stat_tree (tree w) (d @ ''.json'') = Inr ModeRegular)"
    and "tree w = Dir es0"
  shows "fst (Delete c r w) = None
         \<and> lookup (tree (snd (Delete c r w))) (resolve (d @ ''.json'')) = Inl ENOENT
         \<and> lookup (tree (snd (Delete c r w))) (resolve d) = lookup (tree w) (resolve d)"
proof -
  let ?res = "fst (Delete c r w)" and ?w' = "snd (Delete c r w)"
  let ?j = "d @ ''.json''"
  obtain w0 w1 where 0: "tree w0 = tree w" "dir (driver w0) = dir (driver w)"
    and l: "Delete_locked (Join [c, r]) w0 = (?res, w1)" and 1: "tree ?w' = tree w1"
    using Delete_unfold[OF Delete_pair] by blast
  have d0: "d = Join [dir (driver w0), Join [c, r]]" using assms(2) 0 by simp
  have dc: "d = Clean (dir (driver w) @ CHR ''/'' # Join [c, r])" and dn: "d \<noteq> []"
    using Join_root_clean[OF assms(1,2)] by simp_all
  have "lookup (tree w) (resolve d) \<noteq> Inr (Dir es0)"
    using assms(3) dn by (auto simp: stat_tree_def split: sum.splits node.splits)
  then have rn: "resolve d \<noteq> []" using assms(4) by auto
  have nl: "normal (last (splitp d))"
    using clean_resolve_last(2)[of "dir (driver w) @ CHR ''/'' # Join [c, r]"] rn dc by simp
  let ?V = "butlast (resolve d)" and ?n = "last (splitp d)"
  have rd: "resolve d = ?V @ [?n]" using resolve_last[OF nl] by simp
  have rj: "resolve ?j = ?V @ [?n @ ''.json'']" by (rule resolve_suffix[OF nl]) simp
  have s: "stat_tree (tree w0) d = Inr ModeRegular
         \<or> (stat_tree (tree w0) d = Inl ENOENT \<and> stat_tree (tree w0) ?j = Inr ModeRegular)"
    using assms(3) 0 by simp
  note dl = Delete_locked_file[OF l d0 s]
  have "(\<exists>x. lookup (tree w) (?V @ [?n]) = Inr x) \<or> (\<exists>x. lookup (tree w) (?V @ [?n @ ''.json'']) = Inr x)"
    using assms(3) dn rd rj by (auto simp: stat_tree_def split: sum.splits node.splits)
  then have "lookup (tree w) (resolve ?j) = Inl ENOENT \<or> (\<exists>y. lookup (tree w) (resolve ?j) = Inr y)"
    using lookup_sibling[of "tree w" ?V ?n _ "?n @ ''.json''"] rj by auto
  then show ?thesis
  proof
    assume a: "lookup (tree w) (resolve ?j) = Inl ENOENT"
    have "remove_all (tree w) ?j = Inr (tree w)" by (rule remove_all_absent[OF _ _ a]) simp_all
    then show ?thesis using dl 0 1 a by simp
  next
    assume "\<exists>y. lookup (tree w) (resolve ?j) = Inr y"
    then obtain y where y: "lookup (tree w) (resolve ?j) = Inr y" by blast
    have jn: "resolve ?j \<noteq> []" using rj by simp
    obtain t' where rm: "remove_all (tree w) ?j = Inr t'"
      and al: "alter unlink (tree w) (resolve ?j) = Inr t'"
      using remove_all_present[OF _ _ jn y] by auto
    have np: "\<not> prefix (resolve d) (resolve ?j)" "\<not> prefix (resolve ?j) (resolve d)"
      by (subst rd, subst rj, simp add: prefix_def)+
    have "lookup t' (resolve d) = lookup (tree w) (resolve d)"
      by (rule lookup_alter_other[OF al np(1) np(2)])
    then show ?thesis using dl rm 0 1 lookup_unlink[OF al] by simp
  qed
qed

lemma Delete_not_found:
  assumes "d = Join [dir (driver w), Join [c, r]]" "\<not> found (tree w) d"
  shows "fst (Delete c r w)
           = Some (Errorf (''unable to find file or directory named '' @ Join [c, r] @ [CHR 0x0A]))
         \<and> tree (snd (Delete c r w)) = tree w"
proof -
  let ?res = "fst (Delete c r w)" and ?w' = "snd (Delete c r w)"
  obtain w0 w1 where 0: "tree w0 = tree w" "dir (driver w0) = dir (driver w)"
    and l: "Delete_locked (Join [c, r]) w0 = (?res, w1)" and 1: "tree ?w' = tree w1"
    using Delete_unfold[OF Delete_pair] by blast
  have d0: "d = Join [dir (driver w0), Join [c, r]]" using assms(1) 0 by simp
  have nf: "\<not> found (tree w0) d" using assms(2) 0 by simp
  from Delete_locked_not_found[OF l d0 nf] show ?thesis using 0 1 by simp
qed

text \<open>
  Claim C5, amended.  \<^verbatim>\<open>Delete\<close> joins the names, joins the result to the root, and
  lets \<^verbatim>\<open>stat\<close> look for the bare path and then for the path with the suffix; what it
  removes depends on the kind of file found, not on where it was found.
  \<^item> A directory at the bare path (other than the working directory) is removed with
    everything below it.
  \<^item> A directory found at the path with the suffix, the bare path not existing, is
    left in place: the bare path is what \<^verbatim>\<open>RemoveAll\<close> is given, and the call returns
    no error.
  \<^item> A regular file, at either path: the path with the suffix is removed, and a file
    at the bare path stays.
  \<^item> Nothing found: the call returns the error \<^verbatim>\<open>unable to find file or directory\<close>
    and the tree is unchanged.
\<close>

theorem C5_delete_by_kind:
  assumes "dir (driver w) \<noteq> []" and "tree w = Dir es0"
    and "d = Join [dir (driver w), Join [collection, resource]]"
    and "res = fst (Delete collection resource w)"
    and "t' = tree (snd (Delete collection resource w))"
  shows
  "(stat_tree (tree w) d = Inr ModeDir \<and> resolve d \<noteq> [] \<longrightarrow>
      res = None \<and> (\<forall>qs. lookup t' (resolve d @ qs) = Inl ENOENT))
   \<and> (stat_tree (tree w) d = Inl ENOENT \<and> stat_tree (tree w) (d @ ''.json'') = Inr ModeDir \<longrightarrow>
      res = None \<and> t' = tree w)
   \<and> (stat_tree (tree w) d = Inr ModeRegular
       \<or> (stat_tree (tree w) d = Inl ENOENT \<and> stat_tree (tree w) (d @ ''.json'') = Inr ModeRegular) \<longrightarrow>
      res = None \<and> lookup t' (resolve (d @ ''.json'')) = Inl ENOENT
      \<and> lookup t' (resolve d) = lookup (tree w) (resolve d))
   \<and> (\<not> found (tree w) d \<longrightarrow>
      res = Some (Errorf (''unable to find file or directory named ''
                            @ Join [collection, resource] @ [CHR 0x0A]))
      \<and> t' = tree w)"
proof (intro conjI impI allI)
  assume a: "stat_tree (tree w) d = Inr ModeDir \<and> resolve d \<noteq> []"
  show "res = None" using Delete_bare_dir(1)[OF assms(1,3)] a assms(4) by simp
  show "lookup t' (resolve d @ qs) = Inl ENOENT" for qs
    using Delete_bare_dir(2)[OF assms(1,3)] a assms(5) by simp
next
  assume a: "stat_tree (tree w) d = Inl ENOENT \<and> stat_tree (tree w) (d @ ''.json'') = Inr ModeDir"
  then have "fst (Delete collection resource w) = None
             \<and> tree (snd (Delete collection resource w)) = tree w"
    using Delete_suffixed_dir[OF assms(1,3)] by simp
  then show "res = None" "t' = tree w" using assms(4,5) by simp_all
next
  assume a: "stat_tree (tree w) d = Inr ModeRegular
       \<or> (stat_tree (tree w) d = Inl ENOENT \<and> stat_tree (tree w) (d @ ''.json'') = Inr ModeRegular)"
  note f = Delete_file[OF assms(1,3) a assms(2)]
  show "res = None" using f assms(4) by simp
  show "lookup t' (resolve (d @ ''.json'')) = Inl ENOENT" using f assms(5) by simp
  show "lookup t' (resolve d) = lookup (tree w) (resolve d)" using f assms(5) by simp
next
  assume a: "\<not> found (tree w) d"
  note n = Delete_not_found[OF assms(3) a]
  show "res = Some (Errorf (''unable to find file or directory named ''
                            @ Join [collection, resource] @ [CHR 0x0A]))"
    using n assms(4) by simp
  show "t' = tree w" using n assms(5) by simp
qed

theorem C5_delete_by_kind_witness:
  "dir (driver ex_users) \<noteq> []
   \<and> tree ex_users = Dir [(''db'', Dir [(''users'', Dir [(''alice.json'', File ''<hello>\<newline>'')])])]
   \<and> ''db/users/alice'' = Join [dir (driver ex_users), Join [''users'', ''alice'']]
   \<and> stat_tree (tree ex_users) ''db/users/alice'' = Inl ENOENT
   \<and> stat_tree (tree ex_users) (''db/users/alice'' @ ''.json'') = Inr ModeRegular
   \<and> fst (Delete ''users'' ''alice'' ex_users) = None
   \<and> lookup (tree (snd (Delete ''users'' ''alice'' ex_users))) (resolve (''db/users/alice'' @ ''.json''))
       = Inl ENOENT
   \<and> ''db/users'' = Join [dir (driver ex_users), Join [''users'', []]]
   \<and> stat_tree (tree ex_users) ''db/users'' = Inr ModeDir \<and> resolve ''db/users'' \<noteq> []
   \<and> fst (Delete ''users'' [] ex_users) = None
   \<and> lookup (tree (snd (Delete ''users'' [] ex_users))) (resolve ''db/users'' @ [''alice.json''])
       = Inl ENOENT
   \<and> ''db/users/zed'' = Join [dir (driver ex_users), Join [''users'', ''zed'']]
   \<and> \<not> found (tree ex_users) ''db/users/zed''
   \<and> fst (Delete ''users'' ''zed'' ex_users)
       = Some (Errorf ''unable to find file or directory named users/zed\<newline>'')
   \<and> tree (snd (Delete ''users'' ''zed'' ex_users)) = tree ex_users"
proof -
  let ?es = "[(''db'', Dir [(''users'', Dir [(''alice.json'', File ''<hello>\<newline>'')])])]"
  have h1: "dir (driver ex_users) \<noteq> []" by code_simp
  have h2: "tree ex_users = Dir ?es" by code_simp
  have a1: "Join [dir (driver ex_users), Join [''users'', ''alice'']] = ''db/users/alice''" by code_simp
  have a2: "stat_tree (tree ex_users) ''db/users/alice'' = Inl ENOENT" by code_simp
  have a3: "stat_tree (tree ex_users) (''db/users/alice'' @ ''.json'') = Inr ModeRegular" by code_simp
  have b1: "Join [dir (driver ex_users), Join [''users'', []]] = ''db/users''" by code_simp
  have b2: "stat_tree (tree ex_users) ''db/users'' = Inr ModeDir" by code_simp
  have b3: "resolve ''db/users'' \<noteq> []" by code_simp
  have c1: "Join [dir (driver ex_users), Join [''users'', ''zed'']] = ''db/users/zed''" by code_simp
  have c2: "\<not> found (tree ex_users) ''db/users/zed''" by code_simp
  have c3: "''unable to find file or directory named '' @ Join [''users'', ''zed''] @ [CHR 0x0A]
              = ''unable to find file or directory named users/zed\<newline>''" by code_simp
  note A = C5_delete_by_kind[OF h1 h2 a1[symmetric] refl refl]
  note B = C5_delete_by_kind[OF h1 h2 b1[symmetric] refl refl]
  note C = C5_delete_by_kind[OF h1 h2 c1[symmetric] refl refl]
  have A': "fst (Delete ''users'' ''alice'' ex_users) = None
     \<and> lookup (tree (snd (Delete ''users'' ''alice'' ex_users))) (resolve (''db/users/alice'' @ ''.json''))
       = Inl ENOENT"
    using A a2 a3 by blast
  have B': "fst (Delete ''users'' [] ex_users) = None
     \<and> lookup (tree (snd (Delete ''users'' [] ex_users))) (resolve ''db/users'' @ [''alice.json''])
       = Inl ENOENT"
    using B b2 b3 by blast
  have C': "fst (Delete ''users'' ''zed'' ex_users)
       = Some (Errorf (''unable to find file or directory named '' @ Join [''users'', ''zed''] @ [CHR 0x0A]))
     \<and> tree (snd (Delete ''users'' ''zed'' ex_users)) = tree ex_users"
    using C c2 by blast
  show ?thesis
    using h1 h2 a1[symmetric] a2 a3 b1[symmetric] b2 b3 c1[symmetric] c2 A' B' C'
    unfolding c3 by blast
qed

text \<open>
  \<^verbatim>\<open>db/users/x.json\<close> is a directory and \<^verbatim>\<open>db/users/x\<close> does not exist.  For
  \<^verbatim>\<open>Delete("users", "x")\<close> the resolution finds the directory, \<^verbatim>\<open>RemoveAll\<close> is called
  on \<^verbatim>\<open>db/users/x\<close>, the call returns no error, and the directory with its content is
  still there.
\<close>

theorem C5_counterexample:
  "Join [dir (driver ex_suffixed_dir), Join [''users'', ''x'']] = ''db/users/x''
   \<and> stat_tree (tree ex_suffixed_dir) ''db/users/x'' = Inl ENOENT
   \<and> stat_tree (tree ex_suffixed_dir) ''db/users/x.json'' = Inr ModeDir
   \<and> fst (Delete ''users'' ''x'' ex_suffixed_dir) = None
   \<and> lookup (tree (snd (Delete ''users'' ''x'' ex_suffixed_dir))) [''db'', ''users'', ''x.json'']
       = Inr (Dir [(''r.json'', File ''<hello>\<newline>'')])
   \<and> trace (snd (Delete ''users'' ''x'' ex_suffixed_dir))
       = trace ex_suffixed_dir
           @ [Lock 1, Stat ''db/users/x'', Stat ''db/users/x.json'', RemoveAll ''db/users/x'', Unlock 1]"
  by code_simp

section \<open>Deleting a collection and the whole store\<close>

lemma Clean_trailing_sep:
  assumes "c \<noteq> []" shows "Clean (c @ ''/'') = Clean c"
proof -
  have "stack (c @ ''/'') = stack c" using stack_append_sep[OF assms, of "[]"] by simp
  moreover have "rooted (c @ ''/'') = rooted c" using assms by (simp add: rooted_append)
  ultimately show ?thesis using assms by (simp add: Clean_stack)
qed

lemma Clean_append_Clean:
  assumes "a \<noteq> []" "b \<noteq> []" "\<not> rooted b"
  shows "Clean (a @ CHR ''/'' # Clean b) = Clean (a @ CHR ''/'' # b)"
proof -
  have c: "canon (stack b)" by (rule stack_canon)
  have n: "\<forall>e\<in>set (stack b). CHR ''/'' \<notin> set e" using stack_nosep by blast
  have sp: "splitp (Clean b) = (if stack b = [] then [''.''] else stack b)"
    using splitp_render[OF c n, of "rooted b"] assms(2,3) by (simp add: Clean_stack)
  have "foldl (cstep (rooted a)) (stack a) (splitp (Clean b))
          = foldl (cstep (rooted a)) (stack a) (stack b)"
    using sp by simp
  also have "\<dots> = foldl (cstep (rooted a)) (stack a) (splitp b)"
    using absorb[of "rooted a" "stack a" "splitp b"] assms(3) by (simp add: stack_def)
  finally have "stack (a @ CHR ''/'' # Clean b) = stack (a @ CHR ''/'' # b)"
    using assms(1) by (simp add: stack_append_sep)
  moreover have "rooted (a @ CHR ''/'' # Clean b) = rooted (a @ CHR ''/'' # b)"
    using assms(1) by (simp add: rooted_append)
  ultimately show ?thesis using assms(1) by (simp add: Clean_stack)
qed

lemma Join_empty_resource: "c \<noteq> [] \<Longrightarrow> Join [c, []] = Clean c"
  using Clean_trailing_sep[of c] by (simp add: Join.simps)

lemma Delete_path_collection:
  assumes "root \<noteq> []" "c \<noteq> []" "\<not> rooted c"
  shows "Join [root, Join [c, []]] = Join [root, c]"
proof -
  have "Join [root, Join [c, []]] = Join [root, Clean c]"
    by (simp only: Join_empty_resource[OF assms(2)])
  also have "\<dots> = Clean (root @ CHR ''/'' # Clean c)" by (rule Join2[OF assms(1)])
  also have "\<dots> = Clean (root @ CHR ''/'' # c)" by (rule Clean_append_Clean[OF assms])
  also have "\<dots> = Join [root, c]" by (rule Join2[OF assms(1), symmetric])
  finally show ?thesis .
qed

lemma Delete_path_root:
  assumes "Clean root = root"
  shows "Join [root, Join [[], []]] = root"
proof -
  have r: "root \<noteq> []" using assms Clean_not_Nil[of root] by auto
  have "Join [root, []] = Clean (root @ ''/'')" using r by (simp add: Join.simps)
  then show ?thesis using Clean_trailing_sep[OF r] assms by (simp add: Join.simps)
qed

text \<open>
  Claim C9, amended.  Let the root of the store be a cleaned path, as \<^verbatim>\<open>New\<close> leaves it.
  \<^item> For a non-empty collection name that does not begin with a separator, the path
    \<^verbatim>\<open>Delete\<close> builds from the name and an empty resource is the collection directory;
    when that is a directory, and not the working directory itself, \<^verbatim>\<open>Delete\<close> returns
    no error and nothing is left at the directory or below it.
  \<^item> With both names empty the path is the root of the store; when that is a
    directory, and not the working directory itself, \<^verbatim>\<open>Delete\<close> returns no error and
    nothing is left at the root or below it.
\<close>

theorem C9_delete_collection_and_store:
  assumes "Clean (dir (driver w)) = dir (driver w)"
  shows
  "(collection \<noteq> [] \<and> \<not> rooted collection \<and> d = Join [dir (driver w), collection]
      \<and> stat_tree (tree w) d = Inr ModeDir \<and> resolve d \<noteq> [] \<longrightarrow>
      Join [dir (driver w), Join [collection, []]] = d
      \<and> fst (Delete collection [] w) = None
      \<and> (\<forall>qs. lookup (tree (snd (Delete collection [] w))) (resolve d @ qs) = Inl ENOENT))
   \<and> (stat_tree (tree w) (dir (driver w)) = Inr ModeDir \<and> resolve (dir (driver w)) \<noteq> [] \<longrightarrow>
      Join [dir (driver w), Join [[], []]] = dir (driver w)
      \<and> fst (Delete [] [] w) = None
      \<and> (\<forall>qs. lookup (tree (snd (Delete [] [] w))) (resolve (dir (driver w)) @ qs) = Inl ENOENT))"
proof (intro conjI impI)
  have r: "dir (driver w) \<noteq> []" using assms Clean_not_Nil[of "dir (driver w)"] by auto
  {
    assume a: "collection \<noteq> [] \<and> \<not> rooted collection \<and> d = Join [dir (driver w), collection]
      \<and> stat_tree (tree w) d = Inr ModeDir \<and> resolve d \<noteq> []"
    then have j: "d = Join [dir (driver w), Join [collection, []]]"
      using Delete_path_collection[OF r, of collection] by simp
    from a have s: "stat_tree (tree w) d = Inr ModeDir" and n: "resolve d \<noteq> []" by blast+
    show "Join [dir (driver w), Join [collection, []]] = d" using j by simp
    show "fst (Delete collection [] w) = None"
      by (rule Delete_bare_dir(1)[OF r j s n])
    show "\<forall>qs. lookup (tree (snd (Delete collection [] w))) (resolve d @ qs) = Inl ENOENT"
      using Delete_bare_dir(2)[OF r j s n] by blast
  }
  {
    assume a: "stat_tree (tree w) (dir (driver w)) = Inr ModeDir \<and> resolve (dir (driver w)) \<noteq> []"
    have j: "dir (driver w) = Join [dir (driver w), Join [[], []]]"
      using Delete_path_root[OF assms] by simp
    from a have s: "stat_tree (tree w) (dir (driver w)) = Inr ModeDir"
      and n: "resolve (dir (driver w)) \<noteq> []" by blast+
    show "Join [dir (driver w), Join [[], []]] = dir (driver w)" using j by simp
    show "fst (Delete [] [] w) = None"
      by (rule Delete_bare_dir(1)[OF r j s n])
    show "\<forall>qs. lookup (tree (snd (Delete [] [] w))) (resolve (dir (driver w)) @ qs) = Inl ENOENT"
      using Delete_bare_dir(2)[OF r j s n] by blast
  }
qed

theorem C9_delete_collection_and_store_witness:
  "Clean (dir (driver ex_users)) = dir (driver ex_users)
   \<and> ''users'' \<noteq> [] \<and> \<not> rooted ''users'' \<and> ''db/users'' = Join [dir (driver ex_users), ''users'']
   \<and> stat_tree (tree ex_users) ''db/users'' = Inr ModeDir \<and> resolve ''db/users'' \<noteq> []
   \<and> fst (Delete ''users'' [] ex_users) = None
   \<and> lookup (tree (snd (Delete ''users'' [] ex_users))) (resolve ''db/users'' @ [''alice.json''])
       = Inl ENOENT
   \<and> stat_tree (tree ex_users) (dir (driver ex_users)) = Inr ModeDir
   \<and> resolve (dir (driver ex_users)) \<noteq> []
   \<and> fst (Delete [] [] ex_users) = None
   \<and> lookup (tree (snd (Delete [] [] ex_users))) (resolve (dir (driver ex_users)) @ [''users'', ''alice.json''])
       = Inl ENOENT"
proof -
  have h0: "Clean (dir (driver ex_users)) = dir (driver ex_users)" by code_simp
  have a1: "''users'' \<noteq> []" by simp
  have a2: "\<not> rooted ''users''" by code_simp
  have a3: "''db/users'' = Join [dir (driver ex_users), ''users'']" by code_simp
  have a4: "stat_tree (tree ex_users) ''db/users'' = Inr ModeDir" by code_simp
  have a5: "resolve ''db/users'' \<noteq> []" by code_simp
  have b1: "stat_tree (tree ex_users) (dir (driver ex_users)) = Inr ModeDir" by code_simp
  have b2: "resolve (dir (driver ex_users)) \<noteq> []" by code_simp
  note T = C9_delete_collection_and_store[OF h0, of "''users''" "''db/users''"]
  have A: "fst (Delete ''users'' [] ex_users) = None
     \<and> lookup (tree (snd (Delete ''users'' [] ex_users))) (resolve ''db/users'' @ [''alice.json''])
       = Inl ENOENT"
    using T a1 a2 a3 a4 a5 by blast
  have B: "fst (Delete [] [] ex_users) = None
     \<and> lookup (tree (snd (Delete [] [] ex_users))) (resolve (dir (driver ex_users)) @ [''users'', ''alice.json''])
       = Inl ENOENT"
    using T b1 b2 by blast
  show ?thesis using h0 a1 a2 a3 a4 a5 b1 b2 A B by blast
qed

text \<open>
  The collection \<^verbatim>\<open>/../a\<close>: \<^verbatim>\<open>Write\<close> and \<^verbatim>\<open>ReadAll\<close> use the directory \<^verbatim>\<open>a\<close>, which
  exists and holds a resource.  \<^verbatim>\<open>Delete\<close> with an empty resource cleans the name alone
  to \<^verbatim>\<open>/a\<close> first, looks for \<^verbatim>\<open>db/a\<close>, fails with its \<^verbatim>\<open>unable to find\<close> error, and the
  collection is still there.
\<close>

theorem C9_counterexample:
  "Join [dir (driver ex_outside), ''/../a''] = ''a''
   \<and> lookup (tree ex_outside) (resolve ''a'') = Inr (Dir [(''r.json'', File ''<hello>\<newline>'')])
   \<and> fst (ReadAll ''/../a'' ex_outside) = Inr [''<hello>\<newline>'']
   \<and> Join [dir (driver ex_outside), Join [''/../a'', []]] = ''db/a''
   \<and> fst (Delete ''/../a'' [] ex_outside)
       = Some (Errorf ''unable to find file or directory named /a\<newline>'')
   \<and> lookup (tree (snd (Delete ''/../a'' [] ex_outside))) (resolve ''a'')
       = Inr (Dir [(''r.json'', File ''<hello>\<newline>'')])"
  by code_simp

end
